theory Spec2Isabelle
  imports Main "HOL-Library.Char_ord" "HOL-Library.List_Lexorder" "HOL-Library.Multiset"
begin

section \<open>The rewrite-rule classifier of apps/super\_simplify/filter\_rewrite\_rules.cpp\<close>

subsection \<open>Expressions\<close>

text \<open>
  Halide's IR is declared outside the files at hand. What \<open>main\<close> itself touches is
  \<open>Call\<close> (with \<open>name\<close> and \<open>args\<close>), \<open>IntImm\<close> and \<open>Variable\<close>; the remaining
  operators of the spec's data model are kept as one node with an operator kind and its
  ordered children. The boolean constants are unsigned immediates, as in Halide
  (\<open>false\<close> is the unsigned immediate 0), so they are a leaf of their own.
  Rule wildcards are ordinary \<open>Variable\<close> nodes: the code has no separate pattern node.
\<close>

datatype opkind =
  Add | Sub | Mul | Div | Mod | MinOp | MaxOp
  | EQ | NE | LT | LE | GT | GE | And | Or | NotOp | Select

datatype expr =
  IntImm int
  | UIntImm nat
  | Variable string
  | Op opkind "expr list"
  | Call string "expr list"

text \<open>
  An \<open>Expr\<close> is a reference-counted handle: \<open>ptr\<close> is the address of the node it points
  to (what \<open>same_as\<close> compares) and \<open>node\<close> is the tree found there (what \<open>equal\<close> and
  \<open>IRDeepCompare\<close> compare).
\<close>

record Expr =
  ptr :: nat
  node :: expr

definition same_as :: "Expr \<Rightarrow> Expr \<Rightarrow> bool" where
  "same_as a b = (ptr a = ptr b)"

definition equal :: "Expr \<Rightarrow> Expr \<Rightarrow> bool" where
  "equal a b = (node a = node b)"

subsection \<open>Structural ordering\<close>

datatype ordering = Less | Equal | Greater

definition compare_scalar :: "'a::linorder \<Rightarrow> 'a \<Rightarrow> ordering" where
  "compare_scalar a b = (if a < b then Less else if b < a then Greater else Equal)"

fun opkind_tag :: "opkind \<Rightarrow> nat" where
  "opkind_tag Add = 0"
| "opkind_tag Sub = 1"
| "opkind_tag Mul = 2"
| "opkind_tag Div = 3"
| "opkind_tag Mod = 4"
| "opkind_tag MinOp = 5"
| "opkind_tag MaxOp = 6"
| "opkind_tag EQ = 7"
| "opkind_tag NE = 8"
| "opkind_tag LT = 9"
| "opkind_tag LE = 10"
| "opkind_tag GT = 11"
| "opkind_tag GE = 12"
| "opkind_tag And = 13"
| "opkind_tag Or = 14"
| "opkind_tag NotOp = 15"
| "opkind_tag Select = 16"

text \<open>The node-kind tag: every operator is a node kind of its own.\<close>

fun node_type :: "expr \<Rightarrow> nat" where
  "node_type (IntImm _) = 0"
| "node_type (UIntImm _) = 1"
| "node_type (Variable _) = 2"
| "node_type (Op k _) = 3 + opkind_tag k"
| "node_type (Call _ _) = 20"

text \<open>
  Modelled from the spec: \<open>IRDeepCompare\<close> and \<open>equal\<close> come from Halide's IR library,
  which is not among the files at hand. Section 4.1 of the spec: compare by node-kind tag
  first; for equal kinds compare the children pairwise, left to right, and the leaf
  payload (name or integer value) lexicographically or numerically.
\<close>

fun compare_expr :: "expr \<Rightarrow> expr \<Rightarrow> ordering"
  and compare_expr_vector :: "expr list \<Rightarrow> expr list \<Rightarrow> ordering" where
  "compare_expr (IntImm a) (IntImm b) = compare_scalar a b"
| "compare_expr (UIntImm a) (UIntImm b) = compare_scalar a b"
| "compare_expr (Variable a) (Variable b) = compare_scalar a b"
| "compare_expr (Op k xs) (Op k' ys) =
     (if k = k' then compare_expr_vector xs ys
      else compare_scalar (opkind_tag k) (opkind_tag k'))"
| "compare_expr (Call n xs) (Call m ys) =
     (case compare_scalar n m of Equal \<Rightarrow> compare_expr_vector xs ys | c \<Rightarrow> c)"
| "compare_expr a b = compare_scalar (node_type a) (node_type b)"
| "compare_expr_vector [] [] = Equal"
| "compare_expr_vector [] (y # ys) = Less"
| "compare_expr_vector (x # xs) [] = Greater"
| "compare_expr_vector (x # xs) (y # ys) =
     (case compare_expr x y of Equal \<Rightarrow> compare_expr_vector xs ys | c \<Rightarrow> c)"

definition IRDeepCompare :: "Expr \<Rightarrow> Expr \<Rightarrow> bool" where
  "IRDeepCompare a b = (compare_expr (node a) (node b) = Less)"

text \<open>
  \<open>std::set<Expr, IRDeepCompare>::insert\<close>: the set is kept as the list of its elements in
  increasing order; an element equivalent to one already present (neither is less than
  the other) is not inserted. \<open>exprs.insert(exprs_vec.begin(), exprs_vec.end())\<close> inserts
  the elements one after the other.
\<close>

fun set_insert :: "Expr \<Rightarrow> Expr list \<Rightarrow> Expr list" where
  "set_insert e [] = [e]"
| "set_insert e (x # xs) =
     (if IRDeepCompare x e then x # set_insert e xs
      else if IRDeepCompare e x then e # x # xs
      else x # xs)"

fun set_insert_range :: "Expr list \<Rightarrow> Expr list \<Rightarrow> Expr list" where
  "set_insert_range [] s = s"
| "set_insert_range (e # es) s = set_insert_range es (set_insert e s)"

subsection \<open>Helpers of the expression library\<close>

type_synonym binding = "string \<rightharpoonup> expr"

text \<open>
  Modelled from the spec: \<open>substitute\<close>, \<open>is_zero\<close>, \<open>find_vars\<close> and \<open>expr_uses_var\<close>
  are library functions that are not among the files at hand. \<open>substitute\<close> replaces the
  variables bound by the map; \<open>is_zero\<close> is the test "syntactically the constant false"
  of section 4.6 on the boolean predicate; \<open>find_vars\<close> and \<open>expr_uses_var\<close> are the
  free-variable analysis of section 4.2.
\<close>

fun substitute :: "binding \<Rightarrow> expr \<Rightarrow> expr" where
  "substitute b (IntImm n) = IntImm n"
| "substitute b (UIntImm n) = UIntImm n"
| "substitute b (Variable v) = (case b v of Some e \<Rightarrow> e | None \<Rightarrow> Variable v)"
| "substitute b (Op k xs) = Op k (map (substitute b) xs)"
| "substitute b (Call n xs) = Call n (map (substitute b) xs)"

definition const_false :: expr where
  "const_false = UIntImm 0"

definition const_true :: expr where
  "const_true = UIntImm 1"

definition is_zero :: "expr \<Rightarrow> bool" where
  "is_zero e = (e = const_false)"

fun find_vars :: "expr \<Rightarrow> string list" where
  "find_vars (IntImm n) = []"
| "find_vars (UIntImm n) = []"
| "find_vars (Variable v) = [v]"
| "find_vars (Op k xs) = concat (map find_vars xs)"
| "find_vars (Call n xs) = concat (map find_vars xs)"

fun expr_uses_var :: "expr \<Rightarrow> string \<Rightarrow> bool" where
  "expr_uses_var (IntImm n) v = False"
| "expr_uses_var (UIntImm n) v = False"
| "expr_uses_var (Variable w) v = (w = v)"
| "expr_uses_var (Op k xs) v = list_ex (\<lambda>x. expr_uses_var x v) xs"
| "expr_uses_var (Call n xs) v = list_ex (\<lambda>x. expr_uses_var x v) xs"

text \<open>The operators \<open>||\<close> and \<open>!\<close> on expressions build the corresponding nodes.\<close>

definition or_expr :: "expr \<Rightarrow> expr \<Rightarrow> expr" where
  "or_expr a b = Op Or [a, b]"

definition not_expr :: "expr \<Rightarrow> expr" where
  "not_expr a = Op NotOp [a]"

subsection \<open>The leaf counter\<close>

text \<open>
  \<open>CountLeaves\<close> overrides \<open>visit\<close> for \<open>IntImm\<close> and \<open>Variable\<close> only: each adds one
  to \<open>count\<close>. Every other node keeps the visitor's default, which visits the children
  in order and does nothing at a leaf. The second argument is the field \<open>count\<close> before
  the visit, the result is \<open>count\<close> after it. The field is a C++ \<open>int\<close>; it is modelled
  unbounded, a tree of $2^{31}$ leaves being out of reach of a rule file.
\<close>

fun CountLeaves :: "expr \<Rightarrow> int \<Rightarrow> int" where
  "CountLeaves (IntImm n) cnt = cnt + 1"
| "CountLeaves (Variable v) cnt = cnt + 1"
| "CountLeaves (UIntImm n) cnt = cnt"
| "CountLeaves (Op k xs) cnt = fold CountLeaves xs cnt"
| "CountLeaves (Call n xs) cnt = fold CountLeaves xs cnt"

text \<open>The number of \<open>IntImm\<close> and \<open>Variable\<close> occurrences of a tree.\<close>

fun leaves :: "expr \<Rightarrow> int" where
  "leaves (IntImm n) = 1"
| "leaves (Variable v) = 1"
| "leaves (UIntImm n) = 0"
| "leaves (Op k xs) = sum_list (map leaves xs)"
| "leaves (Call n xs) = sum_list (map leaves xs)"

subsection \<open>Rules, collaborators and output\<close>

text \<open>
  Only \<open>orig\<close> is ever compared by identity, so it is the one field kept as a handle;
  \<open>lhs\<close>, \<open>rhs\<close> and \<open>predicate\<close> are the trees their handles point to.
\<close>

record Rule =
  lhs :: expr
  rhs :: expr
  predicate :: expr
  orig :: Expr

text \<open>
  The collaborators that \<open>main\<close> calls and that are not among the files at hand are
  parameters: the parser, the predicate synthesizer (called with no examples and an empty
  binding, it returns the predicate and the binding it filled in), the baseline
  simplifier, the generality checker (called with an empty binding; \<open>Some b\<close> when it
  returns true, with the binding \<open>b\<close> it filled in), the prover, and the printer
  \<open>operator<<\<close>.
\<close>

record env =
  parse_halide_exprs_from_file :: "string \<Rightarrow> Expr list"
  synthesize_predicate :: "expr \<Rightarrow> expr \<Rightarrow> expr \<times> binding"
  simplify :: "expr \<Rightarrow> expr"
  more_general_than :: "expr \<Rightarrow> expr \<Rightarrow> binding option"
  can_prove :: "expr \<Rightarrow> bool"
  print_expr :: "expr \<Rightarrow> string"

text \<open>One value per statement that writes a line to \<open>std::cout\<close>.\<close>

datatype line =
  Usage
  | Resynthesizing Expr
  | False_predicate Expr
  | Implicit_rule Expr
  | Simplifiable_LHS expr expr
  | Too_specific Expr Expr
  | Good_rule expr expr expr

fun render :: "(expr \<Rightarrow> string) \<Rightarrow> line \<Rightarrow> string" where
  "render pr Usage = ''Usage: ./filter_rewrite_rules rewrite_rules.txt'' @ [CHR 0x0A]"
| "render pr (Resynthesizing e) =
     ''Re-synthesizing predicate for '' @ pr (node e) @ [CHR 0x0A]"
| "render pr (False_predicate e) = ''False predicate: '' @ pr (node e) @ [CHR 0x0A]"
| "render pr (Implicit_rule e) = ''Implicit rule: '' @ pr (node e) @ [CHR 0x0A]"
| "render pr (Simplifiable_LHS l s) =
     ''Simplifiable LHS: '' @ pr l @ '' -> '' @ pr s @ [CHR 0x0A]"
| "render pr (Too_specific e e2) =
     ''Too specific: '' @ pr (node e) @ '' vs '' @ pr (node e2) @ [CHR 0x0A]"
| "render pr (Good_rule l r p) =
     ''Good rule: rewrite('' @ pr l @ '', '' @ pr r @ '', '' @ pr p @ '')'' @ [CHR 0x0A]"

text \<open>
  What goes to \<open>std::cerr\<close>: the message of the two \<open>return -1\<close> branches, or the
  report of the failed \<open>_halide_user_assert\<close>. The macro is defined outside the files at
  hand; its report is rendered here as the failed condition.
\<close>

datatype error = Not_a_rewrite_rule Expr | Assertion_failed Expr

fun render_error :: "(expr \<Rightarrow> string) \<Rightarrow> error \<Rightarrow> string" where
  "render_error pr (Not_a_rewrite_rule e) =
     ''Expr is not a rewrite rule: '' @ pr (node e) @ [CHR 0x0A]"
| "render_error pr (Assertion_failed e) =
     ''Condition failed: call->args.size() == 3'' @ [CHR 0x0A]"

text \<open>How the process ends: \<open>main\<close> returns a value, or the failed assertion aborts it.\<close>

datatype status = Returned int | Aborted

fun nonzero_status :: "status \<Rightarrow> bool" where
  "nonzero_status (Returned n) = (n \<noteq> 0)"
| "nonzero_status Aborted = True"

record outcome =
  stdout :: "line list"
  stderr :: "error list"
  exit_status :: status

subsection \<open>The program\<close>

text \<open>
  The loop that turns the set into the rule list. A term that is not a call, or a call
  of another name, ends the program with \<open>return -1\<close>; a call of \<open>rewrite\<close> with
  another number of arguments fails the assertion.
\<close>

fun build_rules :: "Expr list \<Rightarrow> Rule list \<Rightarrow> error + Rule list" where
  "build_rules [] rules = Inr rules"
| "build_rules (e # es) rules =
     (case node e of
        Call name args \<Rightarrow>
          if name \<noteq> ''rewrite'' then Inl (Not_a_rewrite_rule e)
          else if length args \<noteq> 3 then Inl (Assertion_failed e)
          else build_rules es
                 (rules @ [\<lparr>lhs = args ! 0, rhs = args ! 1, predicate = args ! 2, orig = e\<rparr>])
      | _ \<Rightarrow> Inl (Not_a_rewrite_rule e))"

text \<open>
  The body of the re-synthesis loop. The predicate is synthesized from the rule's
  \<open>lhs\<close> and \<open>rhs\<close> as parsed, then the binding is substituted into both.
\<close>

definition resynthesize :: "env \<Rightarrow> Rule \<Rightarrow> Rule" where
  "resynthesize ev r =
     (case synthesize_predicate ev (lhs r) (rhs r) of
        (p, binding) \<Rightarrow>
          r\<lparr>predicate := p, lhs := substitute binding (lhs r),
            rhs := substitute binding (rhs r)\<rparr>)"

fun resynthesize_loop :: "env \<Rightarrow> Rule list \<Rightarrow> Rule list \<times> line list" where
  "resynthesize_loop ev [] = ([], [])"
| "resynthesize_loop ev (r # rs) =
     (case resynthesize_loop ev rs of
        (rs', out) \<Rightarrow> (resynthesize ev r # rs', Resynthesizing (orig r) # out))"

text \<open>The loop over the variables of \<open>rhs\<close>; the result is the flag \<open>bad\<close>.\<close>

fun implicit_loop :: "expr \<Rightarrow> string list \<Rightarrow> bool" where
  "implicit_loop l [] = False"
| "implicit_loop l (v # vs) = (if \<not> expr_uses_var l v then True else implicit_loop l vs)"

text \<open>
  The statements around \<open>CountLeaves counter\<close>: count the leaves of \<open>lhs\<close>, negate,
  add the leaves of the simplified \<open>lhs\<close>; the result is the final \<open>counter.count\<close>.
\<close>

definition leaf_difference :: "expr \<Rightarrow> expr \<Rightarrow> int" where
  "leaf_difference l simpler_lhs = CountLeaves simpler_lhs (- CountLeaves l 0)"

text \<open>
  The loop over \<open>r2\<close>; the result is the rule that made \<open>bad\<close> true, if any. The loop
  runs over the whole vector \<open>rules\<close>.
\<close>

fun domination_loop :: "env \<Rightarrow> Rule \<Rightarrow> Rule list \<Rightarrow> Rule option" where
  "domination_loop ev r [] = None"
| "domination_loop ev r (r2 # rs) =
     (if same_as (orig r) (orig r2) then domination_loop ev r rs
      else case more_general_than ev (lhs r2) (lhs r) of
        Some binding \<Rightarrow>
          if can_prove ev (or_expr (predicate r2) (substitute binding (not_expr (predicate r))))
          then Some r2
          else domination_loop ev r rs
      | None \<Rightarrow> domination_loop ev r rs)"

text \<open>The body of the classification loop after the duplicate test.\<close>

definition classify :: "env \<Rightarrow> Rule list \<Rightarrow> Rule \<Rightarrow> line" where
  "classify ev rules r =
     (if is_zero (predicate r) then False_predicate (orig r)
      else if implicit_loop (lhs r) (find_vars (rhs r)) then Implicit_rule (orig r)
      else let simpler_lhs = simplify ev (lhs r) in
        if leaf_difference (lhs r) simpler_lhs < 0 then Simplifiable_LHS (lhs r) simpler_lhs
        else case domination_loop ev r rules of
          Some r2 \<Rightarrow> Too_specific (orig r) (orig r2)
        | None \<Rightarrow> Good_rule (lhs r) (rhs r) (predicate r))"

text \<open>
  The classification loop. The argument \<open>last_orig\<close> is the variable \<open>last\<close>: \<open>None\<close> while the
  handle is undefined.
\<close>

fun classify_loop :: "env \<Rightarrow> Rule list \<Rightarrow> Expr option \<Rightarrow> Rule list \<Rightarrow> line list" where
  "classify_loop ev rules last_orig [] = []"
| "classify_loop ev rules last_orig (r # rs) =
     (if (case last_orig of Some l \<Rightarrow> equal (orig r) l | None \<Rightarrow> False)
      then classify_loop ev rules last_orig rs
      else classify ev rules r # classify_loop ev rules (Some (orig r)) rs)"

text \<open>\<open>main\<close> from the parsed vector on.\<close>

definition run :: "env \<Rightarrow> Expr list \<Rightarrow> outcome" where
  "run ev exprs_vec =
     (let exprs = set_insert_range exprs_vec [] in
      case build_rules exprs [] of
        Inl (Not_a_rewrite_rule e) \<Rightarrow>
          \<lparr>stdout = [], stderr = [Not_a_rewrite_rule e], exit_status = Returned (- 1)\<rparr>
      | Inl (Assertion_failed e) \<Rightarrow>
          \<lparr>stdout = [], stderr = [Assertion_failed e], exit_status = Aborted\<rparr>
      | Inr rules0 \<Rightarrow>
          (case resynthesize_loop ev rules0 of
             (rules, out) \<Rightarrow>
               \<lparr>stdout = out @ classify_loop ev rules None rules, stderr = [],
                exit_status = Returned 0\<rparr>))"

text \<open>\<open>argv\<close> holds the program name and the arguments, so \<open>argc\<close> is its length.\<close>

definition main :: "env \<Rightarrow> string list \<Rightarrow> outcome" where
  "main ev argv =
     (if length argv < 2 then \<lparr>stdout = [Usage], stderr = [], exit_status = Returned 0\<rparr>
      else run ev (parse_halide_exprs_from_file ev (argv ! 1)))"

text \<open>The text of the two streams.\<close>

definition stdout_text :: "env \<Rightarrow> outcome \<Rightarrow> string" where
  "stdout_text ev res = concat (map (render (print_expr ev)) (stdout res))"

definition stderr_text :: "env \<Rightarrow> outcome \<Rightarrow> string" where
  "stderr_text ev res = concat (map (render_error (print_expr ev)) (stderr res))"

subsection \<open>Notions used in the statements\<close>

text \<open>A top-level term the rule-building loop accepts: a call of \<open>rewrite\<close> with three arguments.\<close>

definition is_rewrite3 :: "expr \<Rightarrow> bool" where
  "is_rewrite3 e = (case e of Call name args \<Rightarrow> name = ''rewrite'' \<and> length args = 3 | _ \<Rightarrow> False)"

text \<open>The five lines of the classification loop.\<close>

fun is_verdict :: "line \<Rightarrow> bool" where
  "is_verdict (False_predicate e) = True"
| "is_verdict (Implicit_rule e) = True"
| "is_verdict (Simplifiable_LHS l s) = True"
| "is_verdict (Too_specific e e2) = True"
| "is_verdict (Good_rule l r p) = True"
| "is_verdict _ = False"

text \<open>The condition under which the loop over \<open>r2\<close> stops at \<open>r2\<close>.\<close>

definition dominates :: "env \<Rightarrow> Rule \<Rightarrow> Rule \<Rightarrow> bool" where
  "dominates ev r r2 =
     (\<not> same_as (orig r) (orig r2) \<and>
      (case more_general_than ev (lhs r2) (lhs r) of
         Some binding \<Rightarrow>
           can_prove ev (or_expr (predicate r2) (substitute binding (not_expr (predicate r))))
       | None \<Rightarrow> False))"

text \<open>
  The spec's reading of the domination filter, for comparison with the loop: a
  candidate survives when none of the three local filters rejects it, and the rules
  that may dominate \<open>r\<close> are the surviving candidates.
\<close>

definition survives_local_filters :: "env \<Rightarrow> Rule \<Rightarrow> bool" where
  "survives_local_filters ev r =
     (\<not> is_zero (predicate r) \<and> \<not> implicit_loop (lhs r) (find_vars (rhs r))
      \<and> \<not> leaf_difference (lhs r) (simplify ev (lhs r)) < 0)"

definition spec_dominators :: "env \<Rightarrow> Rule list \<Rightarrow> Rule \<Rightarrow> Rule list" where
  "spec_dominators ev rules r =
     filter (\<lambda>r2. survives_local_filters ev r2 \<and> dominates ev r r2) rules"

text \<open>
  The leaf count as the spec words it, for comparison with the visitor: every constant
  and every variable occurrence of the tree counts one, operators count nothing.
\<close>

fun spec_leaves :: "expr \<Rightarrow> int" where
  "spec_leaves (IntImm n) = 1"
| "spec_leaves (UIntImm n) = 1"
| "spec_leaves (Variable v) = 1"
| "spec_leaves (Op k xs) = sum_list (map spec_leaves xs)"
| "spec_leaves (Call n xs) = sum_list (map spec_leaves xs)"

text \<open>
  A vector of handles is consistent when one address holds one tree. The trees of a
  line, a diagnostic and a rule are what is left when the addresses are forgotten.
\<close>

definition consistent_handles :: "Expr list \<Rightarrow> bool" where
  "consistent_handles es = (\<forall>a\<in>set es. \<forall>b\<in>set es. ptr a = ptr b \<longrightarrow> node a = node b)"

definition forget :: "Expr \<Rightarrow> Expr" where
  "forget e = e\<lparr>ptr := 0\<rparr>"

fun line_trees :: "line \<Rightarrow> line" where
  "line_trees Usage = Usage"
| "line_trees (Resynthesizing e) = Resynthesizing (forget e)"
| "line_trees (False_predicate e) = False_predicate (forget e)"
| "line_trees (Implicit_rule e) = Implicit_rule (forget e)"
| "line_trees (Simplifiable_LHS l s) = Simplifiable_LHS l s"
| "line_trees (Too_specific e e2) = Too_specific (forget e) (forget e2)"
| "line_trees (Good_rule l r p) = Good_rule l r p"

fun error_trees :: "error \<Rightarrow> error" where
  "error_trees (Not_a_rewrite_rule e) = Not_a_rewrite_rule (forget e)"
| "error_trees (Assertion_failed e) = Assertion_failed (forget e)"

definition rule_trees :: "Rule \<Rightarrow> Rule" where
  "rule_trees r = r\<lparr>orig := forget (orig r)\<rparr>"

subsection \<open>A test double for the collaborators\<close>

text \<open>
  A small, fixed instance of the collaborators, on which the theorems below are run.
  The matcher is first-order matching without the commutative retry; the prover accepts
  a disjunction with a literally true disjunct; the simplifier knows \<open>a - a = 0\<close>,
  \<open>a + 0 = a\<close> and \<open>a && true = a\<close>; the synthesizer answers \<open>false\<close> for \<open>x * 2 \<rightarrow> x * 3\<close>, pins \<open>c0\<close> to 0
  for \<open>x + c0 \<rightarrow> x\<close> and answers \<open>true\<close> with the empty binding otherwise.
\<close>

fun demo_match :: "expr \<Rightarrow> expr \<Rightarrow> (string \<times> expr) list \<Rightarrow> (string \<times> expr) list option"
  and demo_match_list ::
    "expr list \<Rightarrow> expr list \<Rightarrow> (string \<times> expr) list \<Rightarrow> (string \<times> expr) list option" where
  "demo_match (Variable v) e b =
     (case map_of b v of
        None \<Rightarrow> Some ((v, e) # b)
      | Some e' \<Rightarrow> if e' = e then Some b else None)"
| "demo_match (IntImm n) e b = (if e = IntImm n then Some b else None)"
| "demo_match (UIntImm n) e b = (if e = UIntImm n then Some b else None)"
| "demo_match (Op k xs) e b =
     (case e of Op k' ys \<Rightarrow> if k = k' then demo_match_list xs ys b else None | _ \<Rightarrow> None)"
| "demo_match (Call n xs) e b =
     (case e of Call m ys \<Rightarrow> if n = m then demo_match_list xs ys b else None | _ \<Rightarrow> None)"
| "demo_match_list [] ys b = (if ys = [] then Some b else None)"
| "demo_match_list (x # xs) ys b =
     (case ys of
        [] \<Rightarrow> None
      | y # ys' \<Rightarrow>
          (case demo_match x y b of None \<Rightarrow> None | Some b' \<Rightarrow> demo_match_list xs ys' b'))"

definition demo_more_general_than :: "expr \<Rightarrow> expr \<Rightarrow> binding option" where
  "demo_more_general_than a b = map_option map_of (demo_match a b [])"

definition demo_can_prove :: "expr \<Rightarrow> bool" where
  "demo_can_prove e =
     (case e of Op k xs \<Rightarrow> k = Or \<and> list_ex (\<lambda>x. x = const_true) xs | _ \<Rightarrow> False)"

definition demo_simplify :: "expr \<Rightarrow> expr" where
  "demo_simplify e =
     (case e of
        Op k xs \<Rightarrow>
          if k = Sub \<and> length xs = 2 \<and> xs ! 0 = xs ! 1 then IntImm 0
          else if k = Add \<and> length xs = 2 \<and> xs ! 1 = IntImm 0 then xs ! 0
          else if k = And \<and> length xs = 2 \<and> xs ! 1 = const_true then xs ! 0
          else e
      | _ \<Rightarrow> e)"

definition demo_synthesize_predicate :: "expr \<Rightarrow> expr \<Rightarrow> expr \<times> binding" where
  "demo_synthesize_predicate l r =
     (if l = Op Mul [Variable ''x'', IntImm 2] \<and> r = Op Mul [Variable ''x'', IntImm 3]
      then (const_false, Map.empty)
      else if l = Op Add [Variable ''x'', Variable ''c0''] \<and> r = Variable ''x''
      then (const_true, [''c0'' \<mapsto> IntImm 0])
      else (const_true, Map.empty))"

function decimal :: "nat \<Rightarrow> string" where
  "decimal n =
     (if n < 10 then [char_of (48 + n)] else decimal (n div 10) @ [char_of (48 + n mod 10)])"
  by pat_completeness auto
termination
  by (relation "measure id") auto

declare decimal.simps [simp del]

fun opkind_name :: "opkind \<Rightarrow> string" where
  "opkind_name Add = ''+''"
| "opkind_name Sub = ''-''"
| "opkind_name Mul = ''*''"
| "opkind_name Div = ''/''"
| "opkind_name Mod = ''%''"
| "opkind_name MinOp = ''min''"
| "opkind_name MaxOp = ''max''"
| "opkind_name EQ = ''==''"
| "opkind_name NE = ''!=''"
| "opkind_name LT = ''<''"
| "opkind_name LE = ''<=''"
| "opkind_name GT = ''>''"
| "opkind_name GE = ''>=''"
| "opkind_name And = ''&&''"
| "opkind_name Or = ''||''"
| "opkind_name NotOp = ''!''"
| "opkind_name Select = ''select''"

fun demo_print_expr :: "expr \<Rightarrow> string" where
  "demo_print_expr (IntImm n) = (if n < 0 then ''-'' else []) @ decimal (nat \<bar>n\<bar>)"
| "demo_print_expr (UIntImm n) =
     (if n = 0 then ''false'' else if n = 1 then ''true'' else decimal n)"
| "demo_print_expr (Variable v) = v"
| "demo_print_expr (Op k xs) =
     ''('' @ opkind_name k @ concat (map (\<lambda>x. '' '' @ demo_print_expr x) xs) @ '')''"
| "demo_print_expr (Call n xs) =
     ''('' @ n @ concat (map (\<lambda>x. '' '' @ demo_print_expr x) xs) @ '')''"

definition rewrite :: "expr \<Rightarrow> expr \<Rightarrow> expr \<Rightarrow> expr" where
  "rewrite l r p = Call ''rewrite'' [l, r, p]"

text \<open>
  Five rules: \<open>x + y \<rightarrow> (y + x) + (z - z)\<close>, whose right-hand side mentions \<open>z\<close>;
  \<open>(x * y) + z \<rightarrow> z + (x * y)\<close>, an instance of the first left-hand side;
  \<open>x - x \<rightarrow> 0\<close>; \<open>x * 2 \<rightarrow> x * 3\<close>; and \<open>min(x, y) \<rightarrow> min(y, x)\<close>.
\<close>

definition rule_a :: expr where
  "rule_a = rewrite (Op Add [Variable ''x'', Variable ''y''])
     (Op Add [Op Add [Variable ''y'', Variable ''x''], Op Sub [Variable ''z'', Variable ''z'']])
     const_true"

definition rule_b :: expr where
  "rule_b = rewrite (Op Add [Op Mul [Variable ''x'', Variable ''y''], Variable ''z''])
     (Op Add [Variable ''z'', Op Mul [Variable ''x'', Variable ''y'']])
     const_true"

definition rule_c :: expr where
  "rule_c = rewrite (Op Sub [Variable ''x'', Variable ''x'']) (IntImm 0) const_true"

definition rule_d :: expr where
  "rule_d = rewrite (Op Mul [Variable ''x'', IntImm 2]) (Op Mul [Variable ''x'', IntImm 3])
     const_true"

definition rule_e :: expr where
  "rule_e = rewrite (Op MinOp [Variable ''x'', Variable ''y''])
     (Op MinOp [Variable ''y'', Variable ''x'']) const_true"

text \<open>A sixth rule, with a boolean constant in its left-hand side: \<open>x && true \<rightarrow> x\<close>.\<close>

definition rule_f :: expr where
  "rule_f = rewrite (Op And [Variable ''x'', const_true]) (Variable ''x'') const_true"

text \<open>
  Five files: two hold the same terms in another order (and at other addresses), with
  one term twice; two hold a single rule each; the last holds a two-argument \<open>rewrite\<close>.
\<close>

definition demo_parse :: "string \<Rightarrow> Expr list" where
  "demo_parse path =
     (if path = ''rules.txt'' then
        [\<lparr>ptr = 1, node = rule_a\<rparr>, \<lparr>ptr = 2, node = rule_b\<rparr>, \<lparr>ptr = 3, node = rule_c\<rparr>,
         \<lparr>ptr = 4, node = rule_d\<rparr>, \<lparr>ptr = 5, node = rule_e\<rparr>, \<lparr>ptr = 6, node = rule_b\<rparr>]
      else if path = ''shuffled.txt'' then
        [\<lparr>ptr = 11, node = rule_e\<rparr>, \<lparr>ptr = 12, node = rule_b\<rparr>, \<lparr>ptr = 13, node = rule_d\<rparr>,
         \<lparr>ptr = 14, node = rule_b\<rparr>, \<lparr>ptr = 15, node = rule_a\<rparr>, \<lparr>ptr = 16, node = rule_c\<rparr>]
      else if path = ''one.txt'' then [\<lparr>ptr = 31, node = rule_e\<rparr>]
      else if path = ''bool.txt'' then [\<lparr>ptr = 41, node = rule_f\<rparr>]
      else if path = ''bad.txt'' then
        [\<lparr>ptr = 21, node = rule_c\<rparr>,
         \<lparr>ptr = 22, node = Call ''rewrite'' [Variable ''y'', Variable ''x'']\<rparr>]
      else [])"

definition demo_env :: env where
  "demo_env =
     \<lparr>parse_halide_exprs_from_file = demo_parse,
      synthesize_predicate = demo_synthesize_predicate,
      simplify = demo_simplify,
      more_general_than = demo_more_general_than,
      can_prove = demo_can_prove,
      print_expr = demo_print_expr\<rparr>"

text \<open>The rules of the first file as the classification loop sees them.\<close>

definition demo_rules :: "Rule list" where
  "demo_rules =
     (case build_rules (set_insert_range (demo_parse ''rules.txt'') []) [] of
        Inr rules0 \<Rightarrow> fst (resynthesize_loop demo_env rules0)
      | Inl err \<Rightarrow> [])"

section \<open>The structural order is a strict linear order\<close>

lemma compare_scalar_Equal [simp]: "compare_scalar a b = Equal \<longleftrightarrow> a = b"
  by (auto simp: compare_scalar_def)

lemma compare_scalar_Less [simp]: "compare_scalar a b = Less \<longleftrightarrow> a < b"
  by (auto simp: compare_scalar_def)

lemma compare_scalar_Greater [simp]: "compare_scalar a b = Greater \<longleftrightarrow> b < a"
  by (auto simp: compare_scalar_def)

lemma opkind_tag_inj: "opkind_tag k = opkind_tag k' \<Longrightarrow> k = k'"
  by (cases k; cases k'; simp)

lemma opkind_tag_less: "opkind_tag k < 17"
  by (cases k) simp_all

lemma opkind_tag_neq [simp]: "opkind_tag k \<noteq> 17"
  using opkind_tag_less [of k] by simp

lemma vector_Equal:
  "(\<And>x y. x \<in> set xs \<Longrightarrow> (compare_expr x y = Equal) = (x = y))
   \<Longrightarrow> (compare_expr_vector xs ys = Equal) = (xs = ys)"
proof (induction xs arbitrary: ys)
  case Nil
  then show ?case by (cases ys) auto
next
  case (Cons x xs)
  show ?case
  proof (cases ys)
    case Nil
    then show ?thesis by simp
  next
    case (Cons y ys')
    have hd: "(compare_expr x y = Equal) = (x = y)"
      using Cons.prems by simp
    have tl: "(compare_expr_vector xs ys' = Equal) = (xs = ys')"
      using Cons.IH Cons.prems by simp
    show ?thesis
      using hd tl Cons by (cases "compare_expr x y") auto
  qed
qed

lemma compare_expr_Equal: "(compare_expr a b = Equal) = (a = b)"
proof (induction a arbitrary: b)
  case (Op k xs)
  then show ?case
    by (cases b) (auto simp: vector_Equal dest: opkind_tag_inj)
next
  case (Call n xs)
  then show ?case
    by (cases b) (auto simp: vector_Equal split: ordering.splits)
qed (case_tac b; simp)+

lemma vector_flip:
  "(\<And>x y. x \<in> set xs \<Longrightarrow> (compare_expr y x = Greater) = (compare_expr x y = Less))
   \<Longrightarrow> (compare_expr_vector ys xs = Greater) = (compare_expr_vector xs ys = Less)"
proof (induction xs arbitrary: ys)
  case Nil
  then show ?case by (cases ys) auto
next
  case (Cons x xs)
  show ?case
  proof (cases ys)
    case Nil
    then show ?thesis by simp
  next
    case (Cons y ys')
    have hd: "(compare_expr y x = Greater) = (compare_expr x y = Less)"
      using Cons.prems by simp
    have tl: "(compare_expr_vector ys' xs = Greater) = (compare_expr_vector xs ys' = Less)"
      using Cons.IH Cons.prems by simp
    have eq: "(compare_expr y x = Equal) = (compare_expr x y = Equal)"
      by (auto simp: compare_expr_Equal)
    show ?thesis
      using hd tl eq Cons
      by (cases "compare_expr x y"; cases "compare_expr y x") auto
  qed
qed

lemma compare_expr_flip: "(compare_expr b a = Greater) = (compare_expr a b = Less)"
proof (induction a arbitrary: b)
  case (Op k xs)
  then show ?case
    by (cases b) (auto simp: vector_flip dest: opkind_tag_inj)
next
  case (Call n xs)
  then show ?case
    by (cases b) (auto simp: vector_flip split: ordering.splits)
qed (case_tac b; auto)+

lemma compare_expr_refl: "compare_expr a a = Equal"
  by (simp add: compare_expr_Equal)

lemma vector_trans:
  "(\<And>x y z. x \<in> set xs \<Longrightarrow> compare_expr x y = Less \<Longrightarrow> compare_expr y z = Less
      \<Longrightarrow> compare_expr x z = Less)
   \<Longrightarrow> compare_expr_vector xs ys = Less \<Longrightarrow> compare_expr_vector ys zs = Less
   \<Longrightarrow> compare_expr_vector xs zs = Less"
proof (induction xs arbitrary: ys zs)
  case Nil
  then show ?case by (cases ys; cases zs) auto
next
  case (Cons x xs)
  obtain y ys' where ys: "ys = y # ys'"
    using Cons.prems(2) by (cases ys) auto
  obtain z zs' where zs: "zs = z # zs'"
    using Cons.prems(3) ys by (cases zs) auto
  have step: "compare_expr x y = Less \<Longrightarrow> compare_expr y z = Less \<Longrightarrow> compare_expr x z = Less"
    using Cons.prems(1) by simp
  have tl: "compare_expr_vector xs ys' = Less \<Longrightarrow> compare_expr_vector ys' zs' = Less
      \<Longrightarrow> compare_expr_vector xs zs' = Less"
    using Cons.IH Cons.prems(1) by simp
  show ?case
    using Cons.prems(2,3) step tl unfolding ys zs
    by (cases "compare_expr x y"; cases "compare_expr y z")
       (auto simp: compare_expr_Equal compare_expr_refl)
qed

lemma compare_expr_trans:
  "compare_expr a b = Less \<Longrightarrow> compare_expr b c = Less \<Longrightarrow> compare_expr a c = Less"
proof (induction a arbitrary: b c)
  case (Op k xs)
  then show ?case
    using opkind_tag_less [of k]
    by (cases b; cases c) (auto split: if_splits dest: opkind_tag_inj intro: vector_trans)
next
  case (Call n xs)
  then show ?case
    by (cases b; cases c) (auto split: ordering.splits if_splits intro: vector_trans)
qed (case_tac b; case_tac c; auto split: if_splits ordering.splits)+

section \<open>The per-rule filters\<close>

subsection \<open>Re-synthesis\<close>

lemma resynthesize_loop_map:
  "resynthesize_loop ev rs = (map (resynthesize ev) rs, map (\<lambda>r. Resynthesizing (orig r)) rs)"
  by (induction rs) auto

lemma resynthesize_fields:
  "orig (resynthesize ev r) = orig r"
  "predicate (resynthesize ev r) = fst (synthesize_predicate ev (lhs r) (rhs r))"
  "lhs (resynthesize ev r) = substitute (snd (synthesize_predicate ev (lhs r) (rhs r))) (lhs r)"
  "rhs (resynthesize ev r) = substitute (snd (synthesize_predicate ev (lhs r) (rhs r))) (rhs r)"
  by (simp_all add: resynthesize_def split: prod.splits)

text \<open>
  C9. Re-synthesis replaces the predicate of a rule by the synthesizer's output and
  substitutes the returned binding into \<open>lhs\<close> and \<open>rhs\<close>; \<open>orig\<close> keeps its address and
  its tree, for each rule and so for the whole list.
\<close>

theorem resynthesis_frame:
  "orig (resynthesize ev r) = orig r
   \<and> predicate (resynthesize ev r) = fst (synthesize_predicate ev (lhs r) (rhs r))
   \<and> lhs (resynthesize ev r) = substitute (snd (synthesize_predicate ev (lhs r) (rhs r))) (lhs r)
   \<and> rhs (resynthesize ev r) = substitute (snd (synthesize_predicate ev (lhs r) (rhs r))) (rhs r)
   \<and> fst (resynthesize_loop ev rs) = map (resynthesize ev) rs
   \<and> map orig (fst (resynthesize_loop ev rs)) = map orig rs"
  by (simp add: resynthesize_fields resynthesize_loop_map)

subsection \<open>False predicate\<close>

text \<open>
  C4. The line of a rule is "False predicate" exactly when its predicate is the
  constant false; the test comes first, so such a rule gets this line whatever the later
  filters would say.
\<close>

theorem false_predicate_iff:
  "((\<exists>e. classify ev rules r = False_predicate e) \<longleftrightarrow> predicate r = const_false)
   \<and> (predicate r = const_false \<longrightarrow> classify ev rules r = False_predicate (orig r))"
  by (auto simp: classify_def is_zero_def Let_def split: option.splits)

theorem false_predicate_iff_witness:
  "predicate \<lparr>lhs = Op Sub [Variable ''x'', Variable ''x''], rhs = Variable ''y'',
      predicate = const_false, orig = \<lparr>ptr = 1, node = IntImm 0\<rparr>\<rparr> = const_false
   \<and> implicit_loop (Op Sub [Variable ''x'', Variable ''x'']) (find_vars (Variable ''y''))
   \<and> classify demo_env []
        \<lparr>lhs = Op Sub [Variable ''x'', Variable ''x''], rhs = Variable ''y'',
         predicate = const_false, orig = \<lparr>ptr = 1, node = IntImm 0\<rparr>\<rparr>
       = False_predicate \<lparr>ptr = 1, node = IntImm 0\<rparr>"
  using false_predicate_iff [of demo_env "[]"
      "\<lparr>lhs = Op Sub [Variable ''x'', Variable ''x''], rhs = Variable ''y'',
        predicate = const_false, orig = \<lparr>ptr = 1, node = IntImm 0\<rparr>\<rparr>"]
  by simp

subsection \<open>Implicit rule\<close>

lemma expr_uses_var_find_vars: "expr_uses_var e v \<longleftrightarrow> v \<in> set (find_vars e)"
  by (induction e) (auto simp: list_ex_iff)

lemma implicit_loop_iff:
  "implicit_loop l vs \<longleftrightarrow> (\<exists>v\<in>set vs. \<not> expr_uses_var l v)"
  by (induction vs) auto

text \<open>
  C5. A rule whose predicate is not the constant false gets the line "Implicit rule"
  exactly when some variable of its \<open>rhs\<close> does not occur in its \<open>lhs\<close>; so does the rule
  \<open>y \<rightarrow> x\<close>.
\<close>

theorem implicit_rule_iff:
  assumes "predicate r \<noteq> const_false"
  shows "((\<exists>e. classify ev rules r = Implicit_rule e)
            \<longleftrightarrow> (\<exists>v\<in>set (find_vars (rhs r)). v \<notin> set (find_vars (lhs r))))
         \<and> ((\<exists>v\<in>set (find_vars (rhs r)). v \<notin> set (find_vars (lhs r)))
            \<longrightarrow> classify ev rules r = Implicit_rule (orig r))
         \<and> (lhs r = Variable ''y'' \<and> rhs r = Variable ''x''
            \<longrightarrow> classify ev rules r = Implicit_rule (orig r))"
  using assms
  by (auto simp: classify_def is_zero_def Let_def implicit_loop_iff expr_uses_var_find_vars
      split: option.splits)

theorem implicit_rule_iff_witness:
  "predicate \<lparr>lhs = Variable ''y'', rhs = Variable ''x'', predicate = const_true,
      orig = \<lparr>ptr = 7, node = rewrite (Variable ''y'') (Variable ''x'') const_true\<rparr>\<rparr>
     \<noteq> const_false
   \<and> classify demo_env []
        \<lparr>lhs = Variable ''y'', rhs = Variable ''x'', predicate = const_true,
         orig = \<lparr>ptr = 7, node = rewrite (Variable ''y'') (Variable ''x'') const_true\<rparr>\<rparr>
       = Implicit_rule \<lparr>ptr = 7, node = rewrite (Variable ''y'') (Variable ''x'') const_true\<rparr>"
  using implicit_rule_iff [of
      "\<lparr>lhs = Variable ''y'', rhs = Variable ''x'', predicate = const_true,
        orig = \<lparr>ptr = 7, node = rewrite (Variable ''y'') (Variable ''x'') const_true\<rparr>\<rparr>"
      demo_env "[]"]
  by (simp add: const_true_def const_false_def)

subsection \<open>Simplifiable left-hand side\<close>

lemma fold_CountLeaves:
  "(\<And>x c. x \<in> set xs \<Longrightarrow> CountLeaves x c = c + leaves x)
   \<Longrightarrow> fold CountLeaves xs c = c + sum_list (map leaves xs)"
  by (induction xs arbitrary: c) auto

lemma CountLeaves_leaves: "CountLeaves e c = c + leaves e"
  by (induction e arbitrary: c) (auto simp: fold_CountLeaves)

lemma leaf_difference_leaves: "leaf_difference l s = leaves s - leaves l"
  by (simp add: leaf_difference_def CountLeaves_leaves)

text \<open>
  C2, as the code has it. A rule that reaches the third filter (its predicate is not the
  constant false and
  every variable of \<open>rhs\<close> occurs in \<open>lhs\<close>) gets the line "Simplifiable LHS" exactly when
  the simplified \<open>lhs\<close> has strictly fewer leaves than \<open>lhs\<close>. The leaves of a tree are its
  \<open>IntImm\<close> and \<open>Variable\<close> occurrences (wildcards are \<open>Variable\<close> nodes), operators
  and calls count nothing, nor does an unsigned immediate, which the visitor does not
  override; this is what the visitor adds to its counter. The rule \<open>x - x \<rightarrow> 0\<close> gets the
  line when the simplifier turns \<open>x - x\<close> into \<open>0\<close>.
\<close>

theorem simplifiable_lhs_iff:
  assumes "predicate r \<noteq> const_false"
    and "\<forall>v\<in>set (find_vars (rhs r)). v \<in> set (find_vars (lhs r))"
  shows "((\<exists>l s. classify ev rules r = Simplifiable_LHS l s)
            \<longleftrightarrow> leaves (simplify ev (lhs r)) < leaves (lhs r))
         \<and> (leaves (simplify ev (lhs r)) < leaves (lhs r)
            \<longrightarrow> classify ev rules r = Simplifiable_LHS (lhs r) (simplify ev (lhs r)))
         \<and> (\<forall>e c. CountLeaves e c = c + leaves e)
         \<and> (\<forall>n m v k f xs. leaves (IntImm n) = 1 \<and> leaves (Variable v) = 1
              \<and> leaves (UIntImm m) = 0
              \<and> leaves (Op k xs) = sum_list (map leaves xs)
              \<and> leaves (Call f xs) = sum_list (map leaves xs))
         \<and> (lhs r = Op Sub [Variable ''x'', Variable ''x''] \<and> rhs r = IntImm 0
              \<and> simplify ev (lhs r) = IntImm 0
            \<longrightarrow> classify ev rules r
                = Simplifiable_LHS (Op Sub [Variable ''x'', Variable ''x'']) (IntImm 0))"
  using assms
  by (auto simp: classify_def is_zero_def Let_def implicit_loop_iff expr_uses_var_find_vars
      leaf_difference_leaves CountLeaves_leaves split: option.splits)

theorem simplifiable_lhs_iff_witness:
  "predicate \<lparr>lhs = Op Sub [Variable ''x'', Variable ''x''], rhs = IntImm 0,
      predicate = const_true, orig = \<lparr>ptr = 3, node = rule_c\<rparr>\<rparr> \<noteq> const_false
   \<and> set (find_vars (IntImm 0)) \<subseteq> set (find_vars (Op Sub [Variable ''x'', Variable ''x'']))
   \<and> simplify demo_env (Op Sub [Variable ''x'', Variable ''x'']) = IntImm 0
   \<and> classify demo_env []
        \<lparr>lhs = Op Sub [Variable ''x'', Variable ''x''], rhs = IntImm 0,
         predicate = const_true, orig = \<lparr>ptr = 3, node = rule_c\<rparr>\<rparr>
       = Simplifiable_LHS (Op Sub [Variable ''x'', Variable ''x'']) (IntImm 0)"
  using simplifiable_lhs_iff [of
      "\<lparr>lhs = Op Sub [Variable ''x'', Variable ''x''], rhs = IntImm 0,
        predicate = const_true, orig = \<lparr>ptr = 3, node = rule_c\<rparr>\<rparr>"
      demo_env "[]"]
  by (simp add: const_true_def const_false_def demo_env_def demo_simplify_def)

text \<open>
  The claim as the spec words it, with every constant a leaf, fails on the rule
  \<open>x && true \<rightarrow> x\<close>: the simplified left-hand side \<open>x\<close> has one constant or variable
  occurrence where \<open>x && true\<close> has two, yet the visitor passes over the boolean
  constant, finds one leaf on both sides, and the rule is reported good.
\<close>

theorem boolean_constant_is_no_leaf:
  "simplify demo_env (Op And [Variable ''x'', const_true]) = Variable ''x''
   \<and> spec_leaves (simplify demo_env (Op And [Variable ''x'', const_true]))
       < spec_leaves (Op And [Variable ''x'', const_true])
   \<and> \<not> leaves (simplify demo_env (Op And [Variable ''x'', const_true]))
       < leaves (Op And [Variable ''x'', const_true])
   \<and> stdout (main demo_env [''filter_rewrite_rules'', ''bool.txt''])
       = [Resynthesizing \<lparr>ptr = 41, node = rule_f\<rparr>,
          Good_rule (Op And [Variable ''x'', const_true]) (Variable ''x'') const_true]"
  by code_simp

section \<open>The set of parsed expressions\<close>

lemma IRDeepCompare_trans:
  "IRDeepCompare a b \<Longrightarrow> IRDeepCompare b c \<Longrightarrow> IRDeepCompare a c"
  unfolding IRDeepCompare_def by (rule compare_expr_trans)

lemma IRDeepCompare_irrefl: "IRDeepCompare a b \<Longrightarrow> node a \<noteq> node b"
  unfolding IRDeepCompare_def using compare_expr_refl [of "node a"] by auto

lemma IRDeepCompare_total:
  "\<not> IRDeepCompare a b \<Longrightarrow> \<not> IRDeepCompare b a \<Longrightarrow> node a = node b"
  unfolding IRDeepCompare_def
  using compare_expr_flip [of "node a" "node b"] compare_expr_Equal [of "node a" "node b"]
  by (cases "compare_expr (node a) (node b)") auto

lemma set_insert_subset: "set (set_insert e xs) \<subseteq> insert e (set xs)"
  by (induction xs) auto

lemma set_insert_nodes:
  "node ` set (set_insert e xs) = insert (node e) (node ` set xs)"
proof (induction xs)
  case Nil
  show ?case by simp
next
  case (Cons x xs)
  show ?case
  proof (cases "IRDeepCompare x e")
    case True
    then show ?thesis by (simp add: Cons.IH insert_commute)
  next
    case lt: False
    show ?thesis
    proof (cases "IRDeepCompare e x")
      case True
      then show ?thesis using lt by simp
    next
      case False
      have same: "node e = node x" by (rule IRDeepCompare_total [OF False lt])
      show ?thesis using lt False by (simp add: same)
    qed
  qed
qed

lemma set_insert_sorted:
  "sorted_wrt IRDeepCompare xs \<Longrightarrow> sorted_wrt IRDeepCompare (set_insert e xs)"
proof (induction xs)
  case Nil
  show ?case by simp
next
  case (Cons x xs)
  have tail: "sorted_wrt IRDeepCompare xs" and above: "\<forall>y\<in>set xs. IRDeepCompare x y"
    using Cons.prems by simp_all
  show ?case
  proof (cases "IRDeepCompare x e")
    case True
    have "\<forall>y\<in>set (set_insert e xs). IRDeepCompare x y"
      using set_insert_subset [of e xs] above True by auto
    then show ?thesis using True Cons.IH [OF tail] by simp
  next
    case lt: False
    show ?thesis
    proof (cases "IRDeepCompare e x")
      case True
      then have "\<forall>y\<in>set xs. IRDeepCompare e y"
        using above IRDeepCompare_trans by blast
      then show ?thesis using lt True Cons.prems by simp
    next
      case False
      then show ?thesis using lt Cons.prems by simp
    qed
  qed
qed

lemma set_insert_range_sorted:
  "sorted_wrt IRDeepCompare s \<Longrightarrow> sorted_wrt IRDeepCompare (set_insert_range es s)"
  by (induction es arbitrary: s) (auto simp: set_insert_sorted)

lemma set_insert_range_nodes:
  "node ` set (set_insert_range es s) = node ` set es \<union> node ` set s"
  by (induction es arbitrary: s) (auto simp: set_insert_nodes)

lemma sorted_nodes_distinct:
  "sorted_wrt IRDeepCompare xs \<Longrightarrow> distinct (map node xs)"
  by (induction xs) (auto dest: IRDeepCompare_irrefl)

lemma sorted_nodes_unique:
  "sorted_wrt IRDeepCompare xs \<Longrightarrow> sorted_wrt IRDeepCompare ys
   \<Longrightarrow> node ` set xs = node ` set ys \<Longrightarrow> map node xs = map node ys"
proof (induction xs arbitrary: ys)
  case Nil
  then show ?case by simp
next
  case (Cons x xs)
  obtain y ys' where ys: "ys = y # ys'"
    using Cons.prems(3) by (cases ys) auto
  have xs_above: "\<forall>a\<in>set xs. IRDeepCompare x a" and xs_sorted: "sorted_wrt IRDeepCompare xs"
    using Cons.prems(1) by simp_all
  have ys_above: "\<forall>b\<in>set ys'. IRDeepCompare y b" and ys_sorted: "sorted_wrt IRDeepCompare ys'"
    using Cons.prems(2) ys by simp_all
  have heads: "node x = node y"
  proof (rule ccontr)
    assume ne: "node x \<noteq> node y"
    have "node x \<in> node ` set ys" using Cons.prems(3) by auto
    then obtain b where b: "b \<in> set ys'" "node b = node x" using ne ys by auto
    have "node y \<in> node ` set (x # xs)" using Cons.prems(3) ys by auto
    then obtain a where a: "a \<in> set xs" "node a = node y" using ne by auto
    have "IRDeepCompare y b" using ys_above b by simp
    then have yx: "IRDeepCompare y x" using b by (simp add: IRDeepCompare_def)
    have "IRDeepCompare x a" using xs_above a by simp
    then have "IRDeepCompare x y" using a by (simp add: IRDeepCompare_def)
    then have "IRDeepCompare x x" using yx IRDeepCompare_trans by blast
    then show False using IRDeepCompare_irrefl by blast
  qed
  have x_notin: "node x \<notin> node ` set xs"
    using xs_above IRDeepCompare_irrefl by fastforce
  have y_notin: "node y \<notin> node ` set ys'"
    using ys_above IRDeepCompare_irrefl by fastforce
  have "insert (node x) (node ` set xs) = insert (node x) (node ` set ys')"
    using Cons.prems(3) ys heads by simp
  then have "node ` set xs = node ` set ys'"
    using x_notin y_notin heads by (metis insert_ident)
  then have "map node xs = map node ys'"
    using Cons.IH [OF xs_sorted ys_sorted] by simp
  then show ?case using heads ys by simp
qed

text \<open>The set built from a vector depends on the trees of the vector only.\<close>

lemma set_insert_range_canonical:
  assumes "node ` set xs = node ` set ys"
  shows "map node (set_insert_range xs []) = map node (set_insert_range ys [])"
proof -
  have "node ` set (set_insert_range xs []) = node ` set (set_insert_range ys [])"
    using assms by (simp add: set_insert_range_nodes)
  then show ?thesis
    by (intro sorted_nodes_unique set_insert_range_sorted) simp_all
qed

section \<open>The rule list\<close>

lemma build_rules_orig:
  "build_rules es acc = Inr rules \<Longrightarrow> map orig rules = map orig acc @ es"
proof (induction es arbitrary: acc)
  case Nil
  then show ?case by simp
next
  case (Cons e es)
  then show ?case
    by (cases "node e") (auto split: if_splits)
qed

lemma build_rules_Inl_iff:
  "(\<exists>err. build_rules es acc = Inl err) \<longleftrightarrow> (\<exists>e\<in>set es. \<not> is_rewrite3 (node e))"
proof (induction es arbitrary: acc)
  case Nil
  show ?case by simp
next
  case (Cons e es)
  show ?case
    by (cases "node e") (simp_all add: is_rewrite3_def Cons.IH)
qed

lemma bad_term_reaches_set:
  assumes "e \<in> set exprs_vec" and "\<not> is_rewrite3 (node e)"
  shows "\<exists>x\<in>set (set_insert_range exprs_vec []). \<not> is_rewrite3 (node x)"
proof -
  have "node e \<in> node ` set (set_insert_range exprs_vec [])"
    using assms(1) by (simp add: set_insert_range_nodes)
  then obtain x where "x \<in> set (set_insert_range exprs_vec [])" and "node x = node e"
    by auto
  then show ?thesis using assms(2) by (intro bexI [of _ x]) simp_all
qed

lemma run_malformed:
  assumes "\<exists>e\<in>set vec. \<not> is_rewrite3 (node e)"
  shows "stdout (run ev vec) = [] \<and> stderr (run ev vec) \<noteq> []
         \<and> nonzero_status (exit_status (run ev vec))"
proof -
  have "\<exists>x\<in>set (set_insert_range vec []). \<not> is_rewrite3 (node x)"
    using assms bad_term_reaches_set by blast
  then obtain err where err: "build_rules (set_insert_range vec []) [] = Inl err"
    using build_rules_Inl_iff by blast
  show ?thesis
    by (cases err) (simp_all add: run_def Let_def err)
qed

text \<open>
  C8. When some parsed top-level term is not a three-argument \<open>rewrite\<close>, the program
  writes nothing to the output stream, writes a diagnostic to the error stream and ends
  with a nonzero status.
\<close>

theorem malformed_input_is_fatal:
  assumes "2 \<le> length argv"
    and "\<exists>e\<in>set (parse_halide_exprs_from_file ev (argv ! 1)). \<not> is_rewrite3 (node e)"
  shows "stdout (main ev argv) = [] \<and> stdout_text ev (main ev argv) = []
         \<and> stderr (main ev argv) \<noteq> []
         \<and> nonzero_status (exit_status (main ev argv))"
  using assms(1) run_malformed [OF assms(2), of ev]
  by (simp add: main_def stdout_text_def)

theorem malformed_input_is_fatal_witness:
  "\<not> is_rewrite3 (node (parse_halide_exprs_from_file demo_env ''bad.txt'' ! 1))
   \<and> stdout (main demo_env [''filter_rewrite_rules'', ''bad.txt'']) = []
   \<and> stderr (main demo_env [''filter_rewrite_rules'', ''bad.txt'']) \<noteq> []
   \<and> nonzero_status (exit_status (main demo_env [''filter_rewrite_rules'', ''bad.txt'']))"
proof -
  have len: "2 \<le> length [''filter_rewrite_rules'', ''bad.txt'']" by simp
  have bad: "\<not> is_rewrite3 (node (parse_halide_exprs_from_file demo_env ''bad.txt'' ! 1))"
    by (simp add: demo_env_def demo_parse_def is_rewrite3_def)
  have mem: "parse_halide_exprs_from_file demo_env ''bad.txt'' ! 1
      \<in> set (parse_halide_exprs_from_file demo_env ''bad.txt'')"
    by (simp add: demo_env_def demo_parse_def)
  have "\<exists>e\<in>set (parse_halide_exprs_from_file demo_env
          ([''filter_rewrite_rules'', ''bad.txt''] ! 1)). \<not> is_rewrite3 (node e)"
    using bad mem by auto
  from malformed_input_is_fatal [OF len this] show ?thesis using bad by simp
qed

subsection \<open>No rule is skipped as a duplicate\<close>

lemma classify_loop_no_skip:
  assumes "distinct (map (\<lambda>r. node (orig r)) rs)"
    and "\<And>l. last_orig = Some l \<Longrightarrow> node l \<notin> set (map (\<lambda>r. node (orig r)) rs)"
  shows "classify_loop ev rules last_orig rs = map (classify ev rules) rs"
  using assms
proof (induction rs arbitrary: last_orig)
  case Nil
  show ?case by simp
next
  case (Cons r rs)
  have no_dup: "\<not> (case last_orig of Some l \<Rightarrow> equal (orig r) l | None \<Rightarrow> False)"
    using Cons.prems(2) by (cases last_orig) (auto simp: equal_def)
  have "classify_loop ev rules (Some (orig r)) rs = map (classify ev rules) rs"
    using Cons.prems(1) by (intro Cons.IH) auto
  then show ?case using no_dup by simp
qed

lemma rules_sorted:
  assumes "build_rules (set_insert_range exprs_vec []) [] = Inr rules0"
  shows "sorted_wrt IRDeepCompare (map orig rules0)"
proof -
  have "map orig rules0 = set_insert_range exprs_vec []"
    using build_rules_orig [OF assms] by simp
  then show ?thesis by (simp add: set_insert_range_sorted)
qed

lemma resynthesized_origs:
  "map orig (fst (resynthesize_loop ev rs)) = map orig rs"
  by (simp add: resynthesize_loop_map resynthesize_fields)

lemma rule_list_invariant:
  assumes "build_rules (set_insert_range exprs_vec []) [] = Inr rules0"
  shows "sorted_wrt (\<lambda>a b. compare_expr (node (orig a)) (node (orig b)) = Less) rules0
         \<and> distinct (map (\<lambda>r. node (orig r)) rules0)
         \<and> classify_loop ev (fst (resynthesize_loop ev rules0)) None
              (fst (resynthesize_loop ev rules0))
            = map (classify ev (fst (resynthesize_loop ev rules0)))
                (fst (resynthesize_loop ev rules0))"
proof -
  have sorted: "sorted_wrt IRDeepCompare (map orig rules0)"
    by (rule rules_sorted [OF assms])
  have one: "sorted_wrt (\<lambda>a b. compare_expr (node (orig a)) (node (orig b)) = Less) rules0"
    using sorted by (simp add: sorted_wrt_map IRDeepCompare_def)
  have "distinct (map node (map orig rules0))"
    by (rule sorted_nodes_distinct [OF sorted])
  then have two: "distinct (map (\<lambda>r. node (orig r)) rules0)"
    by (simp add: comp_def)
  have "map (\<lambda>r. node (orig r)) (fst (resynthesize_loop ev rules0))
      = map node (map orig (fst (resynthesize_loop ev rules0)))"
    by (simp add: comp_def)
  also have "\<dots> = map (\<lambda>r. node (orig r)) rules0"
    by (simp add: resynthesized_origs comp_def)
  finally have "distinct (map (\<lambda>r. node (orig r)) (fst (resynthesize_loop ev rules0)))"
    using two by simp
  then have three: "classify_loop ev (fst (resynthesize_loop ev rules0)) None
        (fst (resynthesize_loop ev rules0))
      = map (classify ev (fst (resynthesize_loop ev rules0))) (fst (resynthesize_loop ev rules0))"
    by (intro classify_loop_no_skip) simp_all
  show ?thesis using one two three by simp
qed

text \<open>
  C10. The rule list built from the set has its \<open>orig\<close> trees in strictly increasing
  structural order, hence pairwise distinct; re-synthesis keeps them, and the
  classification loop skips no rule: it emits the line of every rule.
\<close>

theorem no_rule_is_skipped:
  assumes "build_rules (set_insert_range exprs_vec []) [] = Inr rules0"
  shows "sorted_wrt (\<lambda>a b. compare_expr (node (orig a)) (node (orig b)) = Less) rules0
         \<and> distinct (map (\<lambda>r. node (orig r)) rules0)
         \<and> classify_loop ev (fst (resynthesize_loop ev rules0)) None
              (fst (resynthesize_loop ev rules0))
            = map (classify ev (fst (resynthesize_loop ev rules0)))
                (fst (resynthesize_loop ev rules0))"
  by (rule rule_list_invariant [OF assms])

theorem no_rule_is_skipped_witness:
  "length (classify_loop demo_env demo_rules None demo_rules) = 5
   \<and> classify_loop demo_env demo_rules None demo_rules
       = map (classify demo_env demo_rules) demo_rules"
proof -
  have "case build_rules (set_insert_range (demo_parse ''rules.txt'') []) [] of
          Inr rules0 \<Rightarrow> length rules0 = 5 | Inl err \<Rightarrow> False"
    by code_simp
  then obtain rules0
    where ok: "build_rules (set_insert_range (demo_parse ''rules.txt'') []) [] = Inr rules0"
      and len: "length rules0 = 5"
    by (cases "build_rules (set_insert_range (demo_parse ''rules.txt'') []) []") auto
  have rules: "demo_rules = fst (resynthesize_loop demo_env rules0)"
    by (simp add: demo_rules_def ok)
  have "length demo_rules = 5"
    by (simp add: rules resynthesize_loop_map len)
  then show ?thesis
    using no_rule_is_skipped [OF ok, of demo_env] by (simp add: rules)
qed

section \<open>Domination\<close>

lemma dominates_iff:
  "dominates ev r r2 \<longleftrightarrow>
     \<not> same_as (orig r) (orig r2) \<and>
     (\<exists>b. more_general_than ev (lhs r2) (lhs r) = Some b
        \<and> can_prove ev (or_expr (predicate r2) (substitute b (not_expr (predicate r)))))"
  by (auto simp: dominates_def split: option.splits)

lemma domination_loop_find: "domination_loop ev r rules = find (dominates ev r) rules"
  by (induction rules) (auto simp: dominates_def split: option.splits)

lemma domination_loop_Some:
  "domination_loop ev r rules = Some r2 \<Longrightarrow> r2 \<in> set rules \<and> dominates ev r r2"
  unfolding domination_loop_find by (auto simp: find_Some_iff)

lemma domination_loop_None:
  "domination_loop ev r rules = None \<longleftrightarrow> (\<forall>r2\<in>set rules. \<not> dominates ev r r2)"
  unfolding domination_loop_find by (auto simp: find_None_iff)

lemma domination_loop_skips_same:
  "domination_loop ev r rules
     = domination_loop ev r (filter (\<lambda>r2. \<not> same_as (orig r) (orig r2)) rules)"
  by (induction rules) (auto split: option.splits)

lemma classify_Too_specific:
  "classify ev rules r = Too_specific e e2
   \<Longrightarrow> e = orig r \<and> (\<exists>r2. domination_loop ev r rules = Some r2 \<and> e2 = orig r2)"
  by (auto simp: classify_def Let_def split: if_splits option.splits)

text \<open>
  C6. The loop over \<open>r2\<close> passes over every rule whose \<open>orig\<close> is the handle of \<open>r\<close>'s
  \<open>orig\<close>: it returns what it returns on the list without them. So a line
  "Too specific" never names the rule itself as the dominating one.
\<close>

theorem no_self_domination:
  "domination_loop ev r rules
     = domination_loop ev r (filter (\<lambda>r2. \<not> same_as (orig r) (orig r2)) rules)
   \<and> (\<forall>e e2. classify ev rules r = Too_specific e e2 \<longrightarrow> e = orig r \<and> \<not> same_as e e2)
   \<and> classify ev rules r \<noteq> Too_specific (orig r) (orig r)"
proof -
  have sound: "e = orig r \<and> \<not> same_as e e2"
    if line: "classify ev rules r = Too_specific e e2" for e e2
  proof -
    obtain r2 where "e = orig r" and "domination_loop ev r rules = Some r2" and "e2 = orig r2"
      using classify_Too_specific [OF line] by blast
    then show ?thesis
      using domination_loop_Some [of ev r rules r2] by (simp add: dominates_def)
  qed
  then have "classify ev rules r \<noteq> Too_specific (orig r) (orig r)"
    by (auto simp: same_as_def)
  then show ?thesis
    using sound domination_loop_skips_same [of ev r rules] by blast
qed

theorem no_self_domination_witness:
  "classify demo_env demo_rules (demo_rules ! 1)
     = Too_specific (orig (demo_rules ! 1)) (orig (demo_rules ! 0))
   \<and> \<not> same_as (orig (demo_rules ! 1)) (orig (demo_rules ! 0))"
proof -
  have "classify demo_env demo_rules (demo_rules ! 1)
      = Too_specific (orig (demo_rules ! 1)) (orig (demo_rules ! 0))"
    by code_simp
  then show ?thesis
    using no_self_domination [of demo_env "demo_rules ! 1" demo_rules] by blast
qed

text \<open>
  C1, as the code has it. A rule that reaches the last filter gets the line
  "Too specific" exactly when some rule of the whole re-synthesized list, surviving or
  not, has another \<open>orig\<close> handle, a more general \<open>lhs\<close> with some binding \<open>b\<close>, and the
  prover accepts \<open>r2.predicate || substitute(b, !r.predicate)\<close>. The line names the first
  such rule of the list. When the prover accepts the formula for no such rule, the rule
  is reported good.
\<close>

theorem too_specific_iff:
  assumes "predicate r \<noteq> const_false"
    and "\<forall>v\<in>set (find_vars (rhs r)). v \<in> set (find_vars (lhs r))"
    and "\<not> leaves (simplify ev (lhs r)) < leaves (lhs r)"
  shows "((\<exists>e2. classify ev rules r = Too_specific (orig r) e2) \<longleftrightarrow>
            (\<exists>r2\<in>set rules. \<not> same_as (orig r) (orig r2) \<and>
               (\<exists>b. more_general_than ev (lhs r2) (lhs r) = Some b
                  \<and> can_prove ev (or_expr (predicate r2) (substitute b (not_expr (predicate r)))))))
         \<and> classify ev rules r
             = (case find (dominates ev r) rules of
                  Some r2 \<Rightarrow> Too_specific (orig r) (orig r2)
                | None \<Rightarrow> Good_rule (lhs r) (rhs r) (predicate r))
         \<and> ((\<forall>r2\<in>set rules. \<forall>b. \<not> same_as (orig r) (orig r2)
                \<longrightarrow> more_general_than ev (lhs r2) (lhs r) = Some b
                \<longrightarrow> \<not> can_prove ev (or_expr (predicate r2) (substitute b (not_expr (predicate r)))))
              \<longrightarrow> classify ev rules r = Good_rule (lhs r) (rhs r) (predicate r))"
proof -
  have reach: "classify ev rules r
      = (case domination_loop ev r rules of
           Some r2 \<Rightarrow> Too_specific (orig r) (orig r2)
         | None \<Rightarrow> Good_rule (lhs r) (rhs r) (predicate r))"
    using assms
    by (simp add: classify_def is_zero_def Let_def implicit_loop_iff expr_uses_var_find_vars
        leaf_difference_leaves)
  have one: "(\<exists>e2. classify ev rules r = Too_specific (orig r) e2)
      \<longleftrightarrow> (\<exists>r2\<in>set rules. dominates ev r r2)"
  proof (cases "domination_loop ev r rules")
    case None
    then show ?thesis using reach domination_loop_None [of ev r rules] by simp
  next
    case (Some r2)
    then show ?thesis using reach domination_loop_Some [of ev r rules r2] by auto
  qed
  have two: "classify ev rules r
      = (case find (dominates ev r) rules of
           Some r2 \<Rightarrow> Too_specific (orig r) (orig r2)
         | None \<Rightarrow> Good_rule (lhs r) (rhs r) (predicate r))"
    using reach by (simp add: domination_loop_find)
  have three: "classify ev rules r = Good_rule (lhs r) (rhs r) (predicate r)"
    if "\<forall>r2\<in>set rules. \<not> dominates ev r r2"
    using that reach domination_loop_None [of ev r rules] by simp
  show ?thesis
    using one two three unfolding dominates_iff by blast
qed

theorem too_specific_iff_witness:
  "predicate (demo_rules ! 1) \<noteq> const_false
   \<and> set (find_vars (rhs (demo_rules ! 1))) \<subseteq> set (find_vars (lhs (demo_rules ! 1)))
   \<and> \<not> leaves (simplify demo_env (lhs (demo_rules ! 1))) < leaves (lhs (demo_rules ! 1))
   \<and> find (dominates demo_env (demo_rules ! 1)) demo_rules = Some (demo_rules ! 0)
   \<and> classify demo_env demo_rules (demo_rules ! 1)
       = Too_specific (orig (demo_rules ! 1)) (orig (demo_rules ! 0))
   \<and> find (dominates demo_env (demo_rules ! 4)) demo_rules = None
   \<and> classify demo_env demo_rules (demo_rules ! 4)
       = Good_rule (lhs (demo_rules ! 4)) (rhs (demo_rules ! 4)) (predicate (demo_rules ! 4))"
proof -
  have g1: "predicate (demo_rules ! 4) \<noteq> const_false"
    by code_simp
  have g2: "\<forall>v\<in>set (find_vars (rhs (demo_rules ! 4))). v \<in> set (find_vars (lhs (demo_rules ! 4)))"
    by code_simp
  have g3: "\<not> leaves (simplify demo_env (lhs (demo_rules ! 4))) < leaves (lhs (demo_rules ! 4))"
    by code_simp
  have none: "find (dominates demo_env (demo_rules ! 4)) demo_rules = None"
    by code_simp
  have kept: "classify demo_env demo_rules (demo_rules ! 4)
      = Good_rule (lhs (demo_rules ! 4)) (rhs (demo_rules ! 4)) (predicate (demo_rules ! 4))"
    using too_specific_iff [OF g1 g2 g3, of demo_rules] none by simp
  have h1: "predicate (demo_rules ! 1) \<noteq> const_false"
    by code_simp
  have h2: "\<forall>v\<in>set (find_vars (rhs (demo_rules ! 1))). v \<in> set (find_vars (lhs (demo_rules ! 1)))"
    by code_simp
  have h3: "\<not> leaves (simplify demo_env (lhs (demo_rules ! 1))) < leaves (lhs (demo_rules ! 1))"
    by code_simp
  have first: "find (dominates demo_env (demo_rules ! 1)) demo_rules = Some (demo_rules ! 0)"
    by code_simp
  show ?thesis
    using too_specific_iff [OF h1 h2 h3, of demo_rules] h1 h2 h3 first none kept by auto
qed

text \<open>
  The claim as the spec words it fails on the first file: the second rule,
  \<open>(x * y) + z \<rightarrow> z + (x * y)\<close>, is reported too specific against the first,
  \<open>x + y \<rightarrow> (y + x) + (z - z)\<close>, which is itself rejected as an implicit rule; no
  candidate that survives the local filters dominates it.
\<close>

theorem too_specific_against_rejected_rule:
  "map (\<lambda>r. node (orig r)) demo_rules = [rule_a, rule_b, rule_c, rule_d, rule_e]
   \<and> classify demo_env demo_rules (demo_rules ! 1)
       = Too_specific (orig (demo_rules ! 1)) (orig (demo_rules ! 0))
   \<and> classify demo_env demo_rules (demo_rules ! 0) = Implicit_rule (orig (demo_rules ! 0))
   \<and> \<not> survives_local_filters demo_env (demo_rules ! 0)
   \<and> spec_dominators demo_env demo_rules (demo_rules ! 1) = []"
  by code_simp

section \<open>The output\<close>

lemma is_verdict_classify: "is_verdict (classify ev rules r)"
  by (simp add: classify_def Let_def split: option.splits)

lemma run_output:
  assumes "build_rules (set_insert_range exprs_vec []) [] = Inr rules0"
  shows "run ev exprs_vec =
     \<lparr>stdout = map (\<lambda>r. Resynthesizing (orig r)) rules0
        @ map (classify ev (map (resynthesize ev) rules0)) (map (resynthesize ev) rules0),
      stderr = [], exit_status = Returned 0\<rparr>"
proof -
  have "classify_loop ev (fst (resynthesize_loop ev rules0)) None (fst (resynthesize_loop ev rules0))
      = map (classify ev (fst (resynthesize_loop ev rules0))) (fst (resynthesize_loop ev rules0))"
    using rule_list_invariant [OF assms, of ev] by simp
  then show ?thesis
    by (simp add: run_def Let_def assms resynthesize_loop_map)
qed

text \<open>
  C7, as the code has it. Every rule of the list gets two lines: one
  "Re-synthesizing predicate for" line in the first loop and one line of the
  classification loop, which is one of the five verdicts. The re-synthesis lines of all
  rules come first, then the verdicts, each group in the sorted order of the rules.
\<close>

theorem two_lines_per_rule:
  assumes "2 \<le> length argv"
    and "build_rules (set_insert_range (parse_halide_exprs_from_file ev (argv ! 1)) []) []
          = Inr rules0"
  shows "stdout (main ev argv)
           = map (\<lambda>r. Resynthesizing (orig r)) rules0
             @ map (classify ev (map (resynthesize ev) rules0)) (map (resynthesize ev) rules0)
         \<and> length (stdout (main ev argv)) = 2 * length rules0
         \<and> (\<forall>rules r. is_verdict (classify ev rules r))
         \<and> map orig (map (resynthesize ev) rules0) = map orig rules0
         \<and> sorted_wrt (\<lambda>a b. compare_expr (node (orig a)) (node (orig b)) = Less) rules0"
proof -
  have out: "stdout (main ev argv)
      = map (\<lambda>r. Resynthesizing (orig r)) rules0
        @ map (classify ev (map (resynthesize ev) rules0)) (map (resynthesize ev) rules0)"
    using assms(1) run_output [OF assms(2), of ev] by (simp add: main_def)
  have sorted: "sorted_wrt (\<lambda>a b. compare_expr (node (orig a)) (node (orig b)) = Less) rules0"
    using rule_list_invariant [OF assms(2), of ev] by simp
  show ?thesis
    using out sorted by (simp add: is_verdict_classify resynthesize_fields)
qed

theorem two_lines_per_rule_witness:
  "length (set_insert_range (demo_parse ''rules.txt'') []) = 5
   \<and> length (stdout (main demo_env [''filter_rewrite_rules'', ''rules.txt''])) = 10"
proof -
  have len: "2 \<le> length [''filter_rewrite_rules'', ''rules.txt'']" by simp
  have "case build_rules (set_insert_range (demo_parse ''rules.txt'') []) [] of
          Inr rules0 \<Rightarrow> length rules0 = 5 | Inl err \<Rightarrow> False"
    by code_simp
  then obtain rules0
    where ok: "build_rules (set_insert_range (demo_parse ''rules.txt'') []) [] = Inr rules0"
      and five: "length rules0 = 5"
    by (cases "build_rules (set_insert_range (demo_parse ''rules.txt'') []) []") auto
  have ok': "build_rules (set_insert_range (parse_halide_exprs_from_file demo_env
        ([''filter_rewrite_rules'', ''rules.txt''] ! 1)) []) [] = Inr rules0"
    using ok by (simp add: demo_env_def)
  have "length (set_insert_range (demo_parse ''rules.txt'') []) = 5"
    by code_simp
  then show ?thesis
    using two_lines_per_rule [OF len ok'] five by simp
qed

text \<open>
  The claim as the spec words it fails on a file of one rule: the output has two lines.
\<close>

theorem one_rule_two_lines:
  "stdout (main demo_env [''filter_rewrite_rules'', ''one.txt''])
     = [Resynthesizing \<lparr>ptr = 31, node = rule_e\<rparr>,
        Good_rule (Op MinOp [Variable ''x'', Variable ''y''])
          (Op MinOp [Variable ''y'', Variable ''x'']) const_true]"
  by code_simp

section \<open>The output depends on the trees of the input only\<close>

lemma forget_eq_iff: "forget a = forget b \<longleftrightarrow> node a = node b"
  by (cases a; cases b) (simp add: forget_def)

lemma node_forget: "node (forget e) = node e"
  by (simp add: forget_def)

lemma rule_trees_eq_iff:
  "rule_trees a = rule_trees b \<longleftrightarrow>
     lhs a = lhs b \<and> rhs a = rhs b \<and> predicate a = predicate b \<and> node (orig a) = node (orig b)"
  by (cases a; cases b) (auto simp: rule_trees_def forget_eq_iff)

lemma render_line_trees: "render pr (line_trees l) = render pr l"
  by (cases l) (simp_all add: node_forget)

lemma render_error_trees: "render_error pr (error_trees e) = render_error pr e"
  by (cases e) (simp_all add: node_forget)

lemma map_eq_transfer:
  "map f xs = map f ys \<Longrightarrow> (\<And>x y. x \<in> set xs \<Longrightarrow> y \<in> set ys \<Longrightarrow> f x = f y \<Longrightarrow> g x = h y)
   \<Longrightarrow> map g xs = map h ys"
proof (induction xs arbitrary: ys)
  case Nil
  then show ?case by simp
next
  case (Cons x xs)
  then obtain y ys' where ys: "ys = y # ys'" by (cases ys) auto
  have "g x = h y" using Cons.prems ys by simp
  moreover have "map g xs = map h ys'"
    using Cons.prems ys by (intro Cons.IH) auto
  ultimately show ?case using ys by simp
qed

lemma set_insert_range_subset: "set (set_insert_range es s) \<subseteq> set es \<union> set s"
proof (induction es arbitrary: s)
  case Nil
  show ?case by simp
next
  case (Cons e es)
  show ?case using Cons.IH [of "set_insert e s"] set_insert_subset [of e s] by auto
qed

lemma build_rules_trees:
  "map forget es1 = map forget es2 \<Longrightarrow> map rule_trees acc1 = map rule_trees acc2
   \<Longrightarrow> map_sum error_trees (map rule_trees) (build_rules es1 acc1)
       = map_sum error_trees (map rule_trees) (build_rules es2 acc2)"
proof (induction es1 arbitrary: es2 acc1 acc2)
  case Nil
  then show ?case by simp
next
  case (Cons e1 es1)
  then obtain e2 es2' where es2: "es2 = e2 # es2'" by (cases es2) auto
  have heads: "forget e1 = forget e2" and tails: "map forget es1 = map forget es2'"
    using Cons.prems(1) es2 by simp_all
  have nodes: "node e1 = node e2" using heads by (simp add: forget_eq_iff)
  show ?case
  proof (cases "is_rewrite3 (node e1)")
    case True
    then obtain args where call: "node e1 = Call ''rewrite'' args" and len: "length args = 3"
      by (auto simp: is_rewrite3_def split: expr.splits)
    have "map rule_trees
            (acc1 @ [\<lparr>lhs = args ! 0, rhs = args ! 1, predicate = args ! 2, orig = e1\<rparr>])
        = map rule_trees
            (acc2 @ [\<lparr>lhs = args ! 0, rhs = args ! 1, predicate = args ! 2, orig = e2\<rparr>])"
      using Cons.prems(2) nodes by (simp add: rule_trees_eq_iff)
    from Cons.IH [OF tails this] show ?thesis
      using call len nodes es2 by simp
  next
    case False
    then show ?thesis
      using nodes heads es2 by (cases "node e2") (auto simp: is_rewrite3_def)
  qed
qed

lemma rule_trees_resynthesize:
  "rule_trees a = rule_trees b \<Longrightarrow> rule_trees (resynthesize ev a) = rule_trees (resynthesize ev b)"
  by (simp add: rule_trees_eq_iff resynthesize_fields)

lemma domination_loop_trees:
  assumes "map rule_trees rs1 = map rule_trees rs2" and "rule_trees r1 = rule_trees r2"
    and "\<forall>x\<in>set rs1. same_as (orig r1) (orig x) \<longleftrightarrow> node (orig r1) = node (orig x)"
    and "\<forall>x\<in>set rs2. same_as (orig r2) (orig x) \<longleftrightarrow> node (orig r2) = node (orig x)"
  shows "map_option rule_trees (domination_loop ev r1 rs1)
       = map_option rule_trees (domination_loop ev r2 rs2)"
  using assms
proof (induction rs1 arbitrary: rs2)
  case Nil
  then show ?case by simp
next
  case (Cons x1 rs1)
  then obtain x2 rs2' where rs2: "rs2 = x2 # rs2'" by (cases rs2) auto
  have x: "rule_trees x1 = rule_trees x2" and tails: "map rule_trees rs1 = map rule_trees rs2'"
    using Cons.prems(1) rs2 by simp_all
  have r: "lhs r1 = lhs r2" "predicate r1 = predicate r2" "node (orig r1) = node (orig r2)"
    using Cons.prems(2) by (simp_all add: rule_trees_eq_iff)
  have xf: "lhs x1 = lhs x2" "predicate x1 = predicate x2" "node (orig x1) = node (orig x2)"
    using x by (simp_all add: rule_trees_eq_iff)
  have same: "same_as (orig r1) (orig x1) \<longleftrightarrow> same_as (orig r2) (orig x2)"
    using Cons.prems(3,4) rs2 r xf by simp
  have IH: "map_option rule_trees (domination_loop ev r1 rs1)
      = map_option rule_trees (domination_loop ev r2 rs2')"
    using Cons.prems rs2 tails by (intro Cons.IH) simp_all
  show ?case
    unfolding rs2 using same IH r xf x
    by (simp split: option.splits)
qed

lemma classify_trees:
  assumes "map rule_trees rs1 = map rule_trees rs2" and "rule_trees r1 = rule_trees r2"
    and "\<forall>x\<in>set rs1. same_as (orig r1) (orig x) \<longleftrightarrow> node (orig r1) = node (orig x)"
    and "\<forall>x\<in>set rs2. same_as (orig r2) (orig x) \<longleftrightarrow> node (orig r2) = node (orig x)"
  shows "line_trees (classify ev rs1 r1) = line_trees (classify ev rs2 r2)"
proof -
  have r: "lhs r1 = lhs r2" "rhs r1 = rhs r2" "predicate r1 = predicate r2"
    "forget (orig r1) = forget (orig r2)"
    using assms(2) by (simp_all add: rule_trees_eq_iff forget_eq_iff)
  have dom: "map_option rule_trees (domination_loop ev r1 rs1)
      = map_option rule_trees (domination_loop ev r2 rs2)"
    by (rule domination_loop_trees [OF assms])
  have last: "line_trees (case domination_loop ev r1 rs1 of
          Some r2' \<Rightarrow> Too_specific (orig r1) (orig r2')
        | None \<Rightarrow> Good_rule (lhs r1) (rhs r1) (predicate r1))
      = line_trees (case domination_loop ev r2 rs2 of
          Some r2' \<Rightarrow> Too_specific (orig r2) (orig r2')
        | None \<Rightarrow> Good_rule (lhs r2) (rhs r2) (predicate r2))"
    using dom r
    by (cases "domination_loop ev r1 rs1"; cases "domination_loop ev r2 rs2")
       (auto simp: rule_trees_eq_iff forget_eq_iff)
  show ?thesis
    using last r by (simp add: classify_def Let_def)
qed

text \<open>In a consistent list without structural duplicates, identity is structural equality.\<close>

lemma same_as_is_equal:
  assumes "consistent_handles (map orig rs)" and "distinct (map node (map orig rs))"
    and "r \<in> set rs" and "x \<in> set rs"
  shows "same_as (orig r) (orig x) \<longleftrightarrow> node (orig r) = node (orig x)"
proof
  have mem: "orig r \<in> set (map orig rs)" "orig x \<in> set (map orig rs)"
    using assms(3,4) by simp_all
  {
    assume "same_as (orig r) (orig x)"
    then have "ptr (orig r) = ptr (orig x)" by (simp add: same_as_def)
    then show "node (orig r) = node (orig x)"
      using assms(1) mem unfolding consistent_handles_def by blast
  }
  {
    assume eq: "node (orig r) = node (orig x)"
    have inj: "inj_on node (set (map orig rs))"
      using assms(2) by (simp only: distinct_map)
    have "orig r = orig x" by (rule inj_onD [OF inj eq mem])
    then show "same_as (orig r) (orig x)" by (simp add: same_as_def)
  }
qed

lemma IRDeepCompare_fun: "IRDeepCompare = (\<lambda>a b. compare_expr (node a) (node b) = Less)"
  by (simp add: fun_eq_iff IRDeepCompare_def)

lemma consistent_handles_subset:
  "consistent_handles xs \<Longrightarrow> set ys \<subseteq> set xs \<Longrightarrow> consistent_handles ys"
  unfolding consistent_handles_def by blast

lemma map_forget_eq: "map node xs = map node ys \<Longrightarrow> map forget xs = map forget ys"
  by (rule map_eq_transfer [where f = node]) (simp_all add: forget_eq_iff)

lemma text_of_trees:
  "map line_trees ls1 = map line_trees ls2
   \<Longrightarrow> concat (map (render pr) ls1) = concat (map (render pr) ls2)"
proof -
  assume eq: "map line_trees ls1 = map line_trees ls2"
  have "map (render pr) ls1 = map (render pr) ls2"
  proof (rule map_eq_transfer [OF eq])
    fix x y assume "line_trees x = line_trees y"
    then show "render pr x = render pr y"
      using render_line_trees [of pr x] render_line_trees [of pr y] by simp
  qed
  then show ?thesis by simp
qed

lemma error_text_of_trees:
  "map error_trees es1 = map error_trees es2
   \<Longrightarrow> concat (map (render_error pr) es1) = concat (map (render_error pr) es2)"
proof -
  assume eq: "map error_trees es1 = map error_trees es2"
  have "map (render_error pr) es1 = map (render_error pr) es2"
  proof (rule map_eq_transfer [OF eq])
    fix x y assume "error_trees x = error_trees y"
    then show "render_error pr x = render_error pr y"
      using render_error_trees [of pr x] render_error_trees [of pr y] by simp
  qed
  then show ?thesis by simp
qed

lemma classified_trees:
  assumes ok: "build_rules (set_insert_range vec []) [] = Inr rules0"
    and ok': "build_rules (set_insert_range vec' []) [] = Inr rules0'"
    and cons: "consistent_handles vec" and cons': "consistent_handles vec'"
    and trees: "map rule_trees rules0 = map rule_trees rules0'"
  shows "map line_trees (stdout (run ev vec)) = map line_trees (stdout (run ev vec'))"
proof -
  define S where "S = map (resynthesize ev) rules0"
  define S' where "S' = map (resynthesize ev) rules0'"
  have "map (\<lambda>r. rule_trees (resynthesize ev r)) rules0
      = map (\<lambda>r. rule_trees (resynthesize ev r)) rules0'"
    by (rule map_eq_transfer [OF trees]) (rule rule_trees_resynthesize)
  then have S: "map rule_trees S = map rule_trees S'"
    by (simp add: S_def S'_def comp_def)
  have origs: "map orig S = set_insert_range vec []"
    using build_rules_orig [OF ok] by (simp add: S_def resynthesize_fields comp_def)
  have origs': "map orig S' = set_insert_range vec' []"
    using build_rules_orig [OF ok'] by (simp add: S'_def resynthesize_fields comp_def)
  have sub: "set (set_insert_range vec []) \<subseteq> set vec"
    using set_insert_range_subset [of vec "[]"] by simp
  have sub': "set (set_insert_range vec' []) \<subseteq> set vec'"
    using set_insert_range_subset [of vec' "[]"] by simp
  have c: "consistent_handles (map orig S)"
    unfolding origs by (rule consistent_handles_subset [OF cons sub])
  have c': "consistent_handles (map orig S')"
    unfolding origs' by (rule consistent_handles_subset [OF cons' sub'])
  have srt: "sorted_wrt IRDeepCompare (set_insert_range vec [])"
    by (rule set_insert_range_sorted) simp
  have srt': "sorted_wrt IRDeepCompare (set_insert_range vec' [])"
    by (rule set_insert_range_sorted) simp
  have d: "distinct (map node (map orig S))"
    unfolding origs by (rule sorted_nodes_distinct [OF srt])
  have d': "distinct (map node (map orig S'))"
    unfolding origs' by (rule sorted_nodes_distinct [OF srt'])
  have verdicts: "map (\<lambda>r. line_trees (classify ev S r)) S
      = map (\<lambda>r. line_trees (classify ev S' r)) S'"
  proof (rule map_eq_transfer [OF S])
    fix r r' assume r: "r \<in> set S" and r': "r' \<in> set S'" and eq: "rule_trees r = rule_trees r'"
    have one: "\<forall>x\<in>set S. same_as (orig r) (orig x) \<longleftrightarrow> node (orig r) = node (orig x)"
      using same_as_is_equal [OF c d r] by blast
    have two: "\<forall>x\<in>set S'. same_as (orig r') (orig x) \<longleftrightarrow> node (orig r') = node (orig x)"
      using same_as_is_equal [OF c' d' r'] by blast
    show "line_trees (classify ev S r) = line_trees (classify ev S' r')"
      by (rule classify_trees [OF S eq one two])
  qed
  have announce: "map (\<lambda>r. line_trees (Resynthesizing (orig r))) rules0
      = map (\<lambda>r. line_trees (Resynthesizing (orig r))) rules0'"
    by (rule map_eq_transfer [OF trees]) (simp add: rule_trees_eq_iff forget_eq_iff)
  have out: "map line_trees (stdout (run ev vec))
      = map (\<lambda>r. line_trees (Resynthesizing (orig r))) rules0
        @ map (\<lambda>r. line_trees (classify ev S r)) S"
  proof -
    have "run ev vec =
        \<lparr>stdout = map (\<lambda>r. Resynthesizing (orig r)) rules0 @ map (classify ev S) S,
         stderr = [], exit_status = Returned 0\<rparr>"
      unfolding S_def by (rule run_output [OF ok])
    then show ?thesis by (simp add: comp_def)
  qed
  have out': "map line_trees (stdout (run ev vec'))
      = map (\<lambda>r. line_trees (Resynthesizing (orig r))) rules0'
        @ map (\<lambda>r. line_trees (classify ev S' r)) S'"
  proof -
    have "run ev vec' =
        \<lparr>stdout = map (\<lambda>r. Resynthesizing (orig r)) rules0' @ map (classify ev S') S',
         stderr = [], exit_status = Returned 0\<rparr>"
      unfolding S'_def by (rule run_output [OF ok'])
    then show ?thesis by (simp add: comp_def)
  qed
  show ?thesis
    unfolding out out' verdicts announce by (rule refl)
qed

lemma run_trees:
  assumes cons: "consistent_handles vec" and cons': "consistent_handles vec'"
    and nodes: "node ` set vec = node ` set vec'"
  shows "map line_trees (stdout (run ev vec)) = map line_trees (stdout (run ev vec'))
         \<and> map error_trees (stderr (run ev vec)) = map error_trees (stderr (run ev vec'))
         \<and> exit_status (run ev vec) = exit_status (run ev vec')"
proof -
  let ?E = "set_insert_range vec []" and ?E' = "set_insert_range vec' []"
  have "map forget ?E = map forget ?E'"
    by (rule map_forget_eq [OF set_insert_range_canonical [OF nodes]])
  then have built: "map_sum error_trees (map rule_trees) (build_rules ?E [])
      = map_sum error_trees (map rule_trees) (build_rules ?E' [])"
    by (rule build_rules_trees) simp
  show ?thesis
  proof (cases "build_rules ?E []")
    case (Inl err)
    then obtain err' where err': "build_rules ?E' [] = Inl err'" and eq: "error_trees err = error_trees err'"
      using built by (cases "build_rules ?E' []") auto
    show ?thesis
      using eq by (cases err; cases err') (simp_all add: run_def Let_def Inl err')
  next
    case (Inr rules0)
    then obtain rules0' where ok': "build_rules ?E' [] = Inr rules0'"
      and trees: "map rule_trees rules0 = map rule_trees rules0'"
      using built by (cases "build_rules ?E' []") auto
    have "map line_trees (stdout (run ev vec)) = map line_trees (stdout (run ev vec'))"
      by (rule classified_trees [OF Inr ok' cons cons' trees])
    then show ?thesis
      by (simp add: run_output [OF Inr] run_output [OF ok'])
  qed
qed

lemma build_rules_fields:
  "build_rules es acc = Inr rules
   \<Longrightarrow> (\<And>r. r \<in> set acc \<Longrightarrow> node (orig r) = rewrite (lhs r) (rhs r) (predicate r))
   \<Longrightarrow> r \<in> set rules \<Longrightarrow> node (orig r) = rewrite (lhs r) (rhs r) (predicate r)"
proof (induction es arbitrary: acc)
  case Nil
  then show ?case by simp
next
  case (Cons e es)
  have ok: "is_rewrite3 (node e)"
    using Cons.prems(1) build_rules_Inl_iff [of "e # es" acc] by auto
  then obtain args where call: "node e = Call ''rewrite'' args" and len: "length args = 3"
    by (auto simp: is_rewrite3_def split: expr.splits)
  obtain a b c where args: "args = [a, b, c]"
    using len by (cases args; cases "tl args"; cases "tl (tl args)") auto
  let ?new = "\<lparr>lhs = args ! 0, rhs = args ! 1, predicate = args ! 2, orig = e\<rparr>"
  have step: "build_rules es (acc @ [?new]) = Inr rules"
    using Cons.prems(1) call len by simp
  have new: "node (orig ?new) = rewrite (lhs ?new) (rhs ?new) (predicate ?new)"
    by (simp add: call args rewrite_def)
  show ?case
  proof (rule Cons.IH [OF step _ Cons.prems(3)])
    fix x assume "x \<in> set (acc @ [?new])"
    then consider "x \<in> set acc" | "x = ?new" by auto
    then show "node (orig x) = rewrite (lhs x) (rhs x) (predicate x)"
    proof cases
      case 1
      then show ?thesis by (rule Cons.prems(2))
    next
      case 2
      then show ?thesis using new by simp
    qed
  qed
qed

lemma set_facts:
  "set (map node (set_insert_range vec [])) = set (map node vec)
   \<and> distinct (map node (set_insert_range vec []))
   \<and> sorted_wrt (\<lambda>a b. compare_expr a b = Less) (map node (set_insert_range vec []))"
proof -
  have srt: "sorted_wrt IRDeepCompare (set_insert_range vec [])"
    by (rule set_insert_range_sorted) simp
  have one: "set (map node (set_insert_range vec [])) = set (map node vec)"
    using set_insert_range_nodes [of vec "[]"] by simp
  have two: "distinct (map node (set_insert_range vec []))"
    by (rule sorted_nodes_distinct [OF srt])
  have three: "sorted_wrt (\<lambda>a b. compare_expr a b = Less) (map node (set_insert_range vec []))"
    using srt unfolding IRDeepCompare_fun by (simp add: sorted_wrt_map)
  show ?thesis using one two three by simp
qed

lemma output_follows_set:
  assumes "build_rules (set_insert_range vec []) [] = Inr rules0"
  shows "map orig rules0 = set_insert_range vec []
         \<and> (\<forall>r\<in>set rules0. node (orig r) = rewrite (lhs r) (rhs r) (predicate r))
         \<and> stdout (run ev vec)
             = map (\<lambda>r. Resynthesizing (orig r)) rules0
               @ map (classify ev (map (resynthesize ev) rules0)) (map (resynthesize ev) rules0)"
proof -
  have one: "map orig rules0 = set_insert_range vec []"
    using build_rules_orig [OF assms] by simp
  have two: "\<forall>r\<in>set rules0. node (orig r) = rewrite (lhs r) (rhs r) (predicate r)"
    using build_rules_fields [OF assms] by simp
  show ?thesis using one two by (simp add: run_output [OF assms])
qed

text \<open>
  C3. Two files whose parsed terms are the same multiset of trees give the same text on
  the output stream, the same text on the error stream and the same status, whatever the
  order of the terms and the addresses the parser puts them at. The set built from a file
  holds exactly the trees of the file, each once, in strictly increasing structural
  order, and it is the same list of trees for both files; the rule list is the set, each
  rule holding the three arguments of its \<open>rewrite\<close> term, and the output is the
  re-synthesis line and then the verdict of every rule of that list, in its order. The
  collaborators are functions of the trees they are given.
\<close>

theorem output_is_order_independent:
  assumes "consistent_handles (parse_halide_exprs_from_file ev f1)"
    and "consistent_handles (parse_halide_exprs_from_file ev f2)"
    and "mset (map node (parse_halide_exprs_from_file ev f1))
          = mset (map node (parse_halide_exprs_from_file ev f2))"
  shows "stdout_text ev (main ev [p, f1]) = stdout_text ev (main ev [p, f2])
         \<and> stderr_text ev (main ev [p, f1]) = stderr_text ev (main ev [p, f2])
         \<and> exit_status (main ev [p, f1]) = exit_status (main ev [p, f2])
         \<and> map node (set_insert_range (parse_halide_exprs_from_file ev f1) [])
             = map node (set_insert_range (parse_halide_exprs_from_file ev f2) [])
         \<and> sorted_wrt (\<lambda>a b. compare_expr a b = Less)
              (map node (set_insert_range (parse_halide_exprs_from_file ev f1) []))
         \<and> set (map node (set_insert_range (parse_halide_exprs_from_file ev f1) []))
             = set (map node (parse_halide_exprs_from_file ev f1))
         \<and> set (map node (set_insert_range (parse_halide_exprs_from_file ev f2) []))
             = set (map node (parse_halide_exprs_from_file ev f2))
         \<and> distinct (map node (set_insert_range (parse_halide_exprs_from_file ev f1) []))
         \<and> (\<forall>rules0.
               build_rules (set_insert_range (parse_halide_exprs_from_file ev f1) []) [] = Inr rules0
               \<longrightarrow> map orig rules0 = set_insert_range (parse_halide_exprs_from_file ev f1) []
                 \<and> (\<forall>r\<in>set rules0. node (orig r) = rewrite (lhs r) (rhs r) (predicate r))
                 \<and> stdout (main ev [p, f1])
                     = map (\<lambda>r. Resynthesizing (orig r)) rules0
                       @ map (classify ev (map (resynthesize ev) rules0))
                           (map (resynthesize ev) rules0))
         \<and> (\<forall>rules0.
               build_rules (set_insert_range (parse_halide_exprs_from_file ev f2) []) [] = Inr rules0
               \<longrightarrow> map orig rules0 = set_insert_range (parse_halide_exprs_from_file ev f2) []
                 \<and> (\<forall>r\<in>set rules0. node (orig r) = rewrite (lhs r) (rhs r) (predicate r))
                 \<and> stdout (main ev [p, f2])
                     = map (\<lambda>r. Resynthesizing (orig r)) rules0
                       @ map (classify ev (map (resynthesize ev) rules0))
                           (map (resynthesize ev) rules0))"
proof -
  let ?v1 = "parse_halide_exprs_from_file ev f1" and ?v2 = "parse_halide_exprs_from_file ev f2"
  have "set (map node ?v1) = set (map node ?v2)"
    by (rule mset_eq_setD [OF assms(3)])
  then have nodes: "node ` set ?v1 = node ` set ?v2" by simp
  have run: "map line_trees (stdout (run ev ?v1)) = map line_trees (stdout (run ev ?v2))
      \<and> map error_trees (stderr (run ev ?v1)) = map error_trees (stderr (run ev ?v2))
      \<and> exit_status (run ev ?v1) = exit_status (run ev ?v2)"
    by (rule run_trees [OF assms(1,2) nodes])
  have main: "main ev [p, f1] = run ev ?v1" "main ev [p, f2] = run ev ?v2"
    by (simp_all add: main_def)
  have out: "stdout_text ev (main ev [p, f1]) = stdout_text ev (main ev [p, f2])"
    unfolding stdout_text_def main using run by (intro text_of_trees) simp
  have err: "stderr_text ev (main ev [p, f1]) = stderr_text ev (main ev [p, f2])"
    unfolding stderr_text_def main using run by (intro error_text_of_trees) simp
  have status: "exit_status (main ev [p, f1]) = exit_status (main ev [p, f2])"
    unfolding main using run by simp
  have same: "map node (set_insert_range ?v1 []) = map node (set_insert_range ?v2 [])"
    by (rule set_insert_range_canonical [OF nodes])
  note s1 = set_facts [of ?v1] and s2 = set_facts [of ?v2]
  have f1: "\<forall>rules0. build_rules (set_insert_range ?v1 []) [] = Inr rules0
      \<longrightarrow> map orig rules0 = set_insert_range ?v1 []
        \<and> (\<forall>r\<in>set rules0. node (orig r) = rewrite (lhs r) (rhs r) (predicate r))
        \<and> stdout (main ev [p, f1])
            = map (\<lambda>r. Resynthesizing (orig r)) rules0
              @ map (classify ev (map (resynthesize ev) rules0)) (map (resynthesize ev) rules0)"
    unfolding main using output_follows_set [of ?v1 _ ev] by blast
  have f2: "\<forall>rules0. build_rules (set_insert_range ?v2 []) [] = Inr rules0
      \<longrightarrow> map orig rules0 = set_insert_range ?v2 []
        \<and> (\<forall>r\<in>set rules0. node (orig r) = rewrite (lhs r) (rhs r) (predicate r))
        \<and> stdout (main ev [p, f2])
            = map (\<lambda>r. Resynthesizing (orig r)) rules0
              @ map (classify ev (map (resynthesize ev) rules0)) (map (resynthesize ev) rules0)"
    unfolding main using output_follows_set [of ?v2 _ ev] by blast
  from out err status same s1 s2 f1 f2 show ?thesis by blast
qed

theorem output_is_order_independent_witness:
  "consistent_handles (demo_parse ''rules.txt'') \<and> consistent_handles (demo_parse ''shuffled.txt'')
   \<and> map node (demo_parse ''rules.txt'') \<noteq> map node (demo_parse ''shuffled.txt'')
   \<and> stdout_text demo_env (main demo_env [''filter_rewrite_rules'', ''rules.txt''])
       = stdout_text demo_env (main demo_env [''filter_rewrite_rules'', ''shuffled.txt''])
   \<and> map node (set_insert_range (demo_parse ''shuffled.txt'') [])
       = [rule_a, rule_b, rule_c, rule_d, rule_e]
   \<and> length (stdout (main demo_env [''filter_rewrite_rules'', ''shuffled.txt''])) = 10"
proof -
  have parse: "parse_halide_exprs_from_file demo_env = demo_parse"
    by (simp add: demo_env_def)
  have c1: "consistent_handles (parse_halide_exprs_from_file demo_env ''rules.txt'')"
    unfolding parse by code_simp
  have c2: "consistent_handles (parse_halide_exprs_from_file demo_env ''shuffled.txt'')"
    unfolding parse by code_simp
  have m: "mset (map node (parse_halide_exprs_from_file demo_env ''rules.txt''))
      = mset (map node (parse_halide_exprs_from_file demo_env ''shuffled.txt''))"
    unfolding parse by (simp add: demo_parse_def)
  have differ: "map node (demo_parse ''rules.txt'') \<noteq> map node (demo_parse ''shuffled.txt'')"
    by code_simp
  have trees: "map node (set_insert_range (demo_parse ''shuffled.txt'') [])
      = [rule_a, rule_b, rule_c, rule_d, rule_e]"
    by code_simp
  have lines: "length (stdout (main demo_env [''filter_rewrite_rules'', ''shuffled.txt''])) = 10"
    by code_simp
  have "stdout_text demo_env (main demo_env [''filter_rewrite_rules'', ''rules.txt''])
      = stdout_text demo_env (main demo_env [''filter_rewrite_rules'', ''shuffled.txt''])"
    using output_is_order_independent [OF c1 c2 m, of "''filter_rewrite_rules''"] by blast
  then show ?thesis
    using c1 c2 differ trees lines unfolding parse by blast
qed

end
